theory Spec2Isabelle
  imports Main "HOL-Library.Sublist"
begin

section \<open>Data model (core/myers_algorithm.py)\<close>

datatype DiffType = EQUAL | INSERT | DELETE | REPLACE

record 'a DiffResult =
  type :: DiffType
  old_start :: int
  old_count :: int
  new_start :: int
  new_count :: int
  old_lines :: "'a list"
  new_lines :: "'a list"

datatype py_error = KeyError | IndexError

text \<open>Python list indexing \<open>xs[i]\<close>: a negative index counts from the end, an index
  out of range raises IndexError.\<close>

definition py_index :: "'a list \<Rightarrow> int \<Rightarrow> py_error + 'a" where
  "py_index xs i =
     (let len = int (length xs); j = (if i < 0 then i + len else i)
      in if 0 \<le> j \<and> j < len then Inr (xs ! nat j) else Inl IndexError)"

text \<open>Python slicing \<open>xs[i:j]\<close>: negative bounds count from the end, bounds are
  clamped to the list, an empty range gives the empty list.\<close>

definition slice_bound :: "int \<Rightarrow> nat \<Rightarrow> nat" where
  "slice_bound i len = (if i < 0 then nat (max 0 (i + int len)) else min (nat i) len)"

definition py_slice :: "'a list \<Rightarrow> int \<Rightarrow> int \<Rightarrow> 'a list" where
  "py_slice xs i j =
     (let s = slice_bound i (length xs); e = slice_bound j (length xs)
      in take (e - s) (drop s xs))"

text \<open>\<open>v.get(k, default)\<close> and \<open>v[k]\<close> on the dictionary of furthest x per diagonal.\<close>

definition dict_get :: "(int \<rightharpoonup> int) \<Rightarrow> int \<Rightarrow> int \<Rightarrow> int" where
  "dict_get v k dflt = (case v k of None \<Rightarrow> dflt | Some x \<Rightarrow> x)"

definition dict_item :: "(int \<rightharpoonup> int) \<Rightarrow> int \<Rightarrow> py_error + int" where
  "dict_item v k = (case v k of None \<Rightarrow> Inl KeyError | Some x \<Rightarrow> Inr x)"

section \<open>MyersDiff._find_shortest_edit_script\<close>

definition lines_equal :: "'a list \<Rightarrow> 'a list \<Rightarrow> int \<Rightarrow> int \<Rightarrow> py_error + bool" where
  "lines_equal pa pb x y =
     (case py_index pa x of Inl e \<Rightarrow> Inl e
      | Inr l \<Rightarrow> (case py_index pb y of Inl e \<Rightarrow> Inl e | Inr r \<Rightarrow> Inr (l = r)))"

text \<open>The inner \<open>while x < n and y < m and self._lines_equal(x, y)\<close> loop; the
  result is the final x (y moves in step with it).\<close>

function follow_diagonal :: "'a list \<Rightarrow> 'a list \<Rightarrow> int \<Rightarrow> int \<Rightarrow> py_error + int" where
  "follow_diagonal pa pb x y =
     (if x < int (length pa) \<and> y < int (length pb) then
        (case lines_equal pa pb x y of
           Inl e \<Rightarrow> Inl e
         | Inr eq \<Rightarrow> if eq then follow_diagonal pa pb (x + 1) (y + 1) else Inr x)
      else Inr x)"
  by pat_completeness auto
termination
  by (relation "measure (\<lambda>(pa, pb, x, y). nat (int (length pa) - x))") auto

declare follow_diagonal.simps [simp del]

text \<open>The choice between the down move and the right move, shared by the search and
  the backtracking.\<close>

definition move_down :: "(int \<rightharpoonup> int) \<Rightarrow> int \<Rightarrow> int \<Rightarrow> bool" where
  "move_down v d k \<longleftrightarrow>
     k = - d \<or> (k \<noteq> d \<and> dict_get v (k - 1) (- 1) < dict_get v (k + 1) (- 1))"

datatype k_outcome = Reached | Exhausted "int \<rightharpoonup> int"

text \<open>\<open>for k in range(-d, d + 1, 2)\<close>: \<open>Reached\<close> is the \<open>return\<close> inside the loop,
  \<open>Exhausted v\<close> the end of the range with the updated dictionary.\<close>

function k_loop :: "'a list \<Rightarrow> 'a list \<Rightarrow> int \<Rightarrow> int \<Rightarrow> (int \<rightharpoonup> int) \<Rightarrow> py_error + k_outcome" where
  "k_loop pa pb d k v =
     (if k < d + 1 then
        (let x0 = (if move_down v d k then dict_get v (k + 1) 0 else dict_get v (k - 1) 0 + 1);
             y0 = x0 - k
         in case follow_diagonal pa pb x0 y0 of
              Inl e \<Rightarrow> Inl e
            | Inr x \<Rightarrow>
                (let y = x - k; v' = v(k \<mapsto> x)
                 in if x \<ge> int (length pa) \<and> y \<ge> int (length pb) then Inr Reached
                    else k_loop pa pb d (k + 2) v'))
      else Inr (Exhausted v))"
  by pat_completeness auto
termination
  by (relation "measure (\<lambda>(pa, pb, d, k, v). nat (d + 1 - k))") auto

declare k_loop.simps [simp del]

datatype search_outcome = Found "(int \<rightharpoonup> int) list" int | NotFound

text \<open>\<open>for d in range(max_d + 1)\<close> with the snapshot \<open>trace.append(v.copy())\<close> taken
  before the diagonals of distance d are explored.\<close>

function d_loop :: "'a list \<Rightarrow> 'a list \<Rightarrow> int \<Rightarrow> (int \<rightharpoonup> int) list \<Rightarrow> (int \<rightharpoonup> int)
    \<Rightarrow> py_error + search_outcome" where
  "d_loop pa pb d trace v =
     (if d < int (length pa) + int (length pb) + 1 then
        (let trace' = trace @ [v]
         in case k_loop pa pb d (- d) v of
              Inl e \<Rightarrow> Inl e
            | Inr Reached \<Rightarrow> Inr (Found trace' d)
            | Inr (Exhausted v') \<Rightarrow> d_loop pa pb (d + 1) trace' v')
      else Inr NotFound)"
  by pat_completeness auto
termination
  by (relation "measure (\<lambda>(pa, pb, d, trace, v). nat (int (length pa) + int (length pb) + 1 - d))") auto

declare d_loop.simps [simp del]

definition search :: "'a list \<Rightarrow> 'a list \<Rightarrow> py_error + search_outcome" where
  "search pa pb = d_loop pa pb 0 [] [1 \<mapsto> 0]"

section \<open>MyersDiff._backtrack\<close>

type_synonym point = "int \<times> int"

text \<open>\<open>while x > prev_x and y > prev_y\<close>: walk the diagonal back, appending each point.\<close>

function walk_back :: "int \<Rightarrow> int \<Rightarrow> int \<Rightarrow> int \<Rightarrow> point list \<Rightarrow> int \<times> int \<times> point list" where
  "walk_back prev_x prev_y x y path =
     (if x > prev_x \<and> y > prev_y then walk_back prev_x prev_y (x - 1) (y - 1) (path @ [(x - 1, y - 1)])
      else (x, y, path))"
  by pat_completeness auto
termination
  by (relation "measure (\<lambda>(prev_x, prev_y, x, y, path). nat (x - prev_x))") auto

declare walk_back.simps [simp del]

text \<open>\<open>for depth in range(d, 0, -1)\<close>.\<close>

function backtrack_loop :: "(int \<rightharpoonup> int) list \<Rightarrow> int \<Rightarrow> int \<Rightarrow> int \<Rightarrow> point list
    \<Rightarrow> py_error + point list" where
  "backtrack_loop trace depth x y path =
     (if depth > 0 then
        (case py_index trace depth of
           Inl e \<Rightarrow> Inl e
         | Inr v \<Rightarrow>
            (let k = x - y;
                 prev_k = (if move_down v depth k then k + 1 else k - 1)
             in case dict_item v prev_k of
                  Inl e \<Rightarrow> Inl e
                | Inr prev_x \<Rightarrow>
                   (let prev_y = prev_x - prev_k
                    in case walk_back prev_x prev_y x y path of
                         (x', y', path') \<Rightarrow>
                           if x' > prev_x
                           then backtrack_loop trace (depth - 1) prev_x y' (path' @ [(prev_x, y')])
                           else backtrack_loop trace (depth - 1) x' prev_y (path' @ [(x', prev_y)]))))
      else Inr path)"
  by pat_completeness auto
termination
  by (relation "measure (\<lambda>(trace, depth, x, y, path). nat depth)") auto

declare backtrack_loop.simps [simp del]

definition backtrack :: "int \<Rightarrow> int \<Rightarrow> (int \<rightharpoonup> int) list \<Rightarrow> int \<Rightarrow> py_error + point list" where
  "backtrack n m trace d =
     (case backtrack_loop trace d n m [(n, m)] of
        Inl e \<Rightarrow> Inl e
      | Inr path \<Rightarrow>
         (let p = rev path;
              p1 = (if p = [] \<or> hd p \<noteq> (0, 0) then (0, 0) # p else p);
              p2 = (if last p1 \<noteq> (n, m) then p1 @ [(n, m)] else p1)
          in Inr p2))"

definition find_shortest_edit_script :: "'a list \<Rightarrow> 'a list \<Rightarrow> py_error + point list" where
  "find_shortest_edit_script pa pb =
     (let n = int (length pa); m = int (length pb)
      in case search pa pb of
           Inl e \<Rightarrow> Inl e
         | Inr (Found trace d) \<Rightarrow> backtrack n m trace d
         | Inr NotFound \<Rightarrow> Inr [(0, 0), (n, m)])"

section \<open>MyersDiff._build_diff_results and MyersDiff._merge_replace_operations\<close>

text \<open>The scan for the end of an equal block: \<open>j\<close> advances while the next step of the
  path is a diagonal step of length one.\<close>

function equal_block_end :: "point list \<Rightarrow> nat \<Rightarrow> nat" where
  "equal_block_end path j =
     (if Suc j < length path then
        (if fst (path ! Suc j) = fst (path ! j) + 1 \<and> snd (path ! Suc j) = snd (path ! j) + 1
         then equal_block_end path (Suc j)
         else j)
      else j)"
  by pat_completeness auto
termination
  by (relation "measure (\<lambda>(path, j). length path - j)") auto

declare equal_block_end.simps [simp del]

function build_loop :: "'a list \<Rightarrow> 'a list \<Rightarrow> point list \<Rightarrow> nat \<Rightarrow> 'a DiffResult list
    \<Rightarrow> 'a DiffResult list" where
  "build_loop sa sb path i results =
     (if Suc i < length path then
        (let x1 = fst (path ! i); y1 = snd (path ! i);
             x2 = fst (path ! Suc i); y2 = snd (path ! Suc i)
         in if x2 > x1 \<and> y2 > y1 then
               (let j = equal_block_end path (Suc i);
                    equal_end_x = fst (path ! j);
                    equal_end_y = snd (path ! j)
                in build_loop sa sb path j (results @
                     [\<lparr>type = EQUAL, old_start = x1, old_count = equal_end_x - x1,
                       new_start = y1, new_count = equal_end_y - y1,
                       old_lines = py_slice sa x1 equal_end_x,
                       new_lines = py_slice sb y1 equal_end_y\<rparr>]))
             else if x2 = x1 \<and> y2 > y1 then
               build_loop sa sb path (Suc i) (results @
                 [\<lparr>type = INSERT, old_start = x1, old_count = 0, new_start = y1, new_count = 1,
                   old_lines = [], new_lines = py_slice sb y1 y2\<rparr>])
             else if x2 > x1 \<and> y2 = y1 then
               build_loop sa sb path (Suc i) (results @
                 [\<lparr>type = DELETE, old_start = x1, old_count = 1, new_start = y1, new_count = 0,
                   old_lines = py_slice sa x1 x2, new_lines = []\<rparr>])
             else build_loop sa sb path (Suc i) results)
      else results)"
  by pat_completeness auto

termination build_loop
proof (relation "measure (\<lambda>(sa, sb, path, i, results). length path - i)", goal_cases)
  case 1
  show ?case by simp
next
  case (2 sa sb path i results x1 y1 x2 y2 j)
  have ge: "k \<le> equal_block_end p k" for p :: "point list" and k
  proof (induction p k rule: equal_block_end.induct)
    case (1 path j)
    show ?case
      using 1 by (subst equal_block_end.simps) (auto dest: Suc_leD)
  qed
  have less: "k < length p \<Longrightarrow> equal_block_end p k < length p" for p :: "point list" and k
  proof (induction p k rule: equal_block_end.induct)
    case (1 path j)
    show ?case
      using 1 by (subst equal_block_end.simps) auto
  qed
  have "Suc i \<le> equal_block_end path (Suc i)" by (rule ge)
  moreover have "equal_block_end path (Suc i) < length path"
    using 2 by (intro less) simp
  ultimately show ?case using 2 by simp
qed auto

declare build_loop.simps [simp del]

function merge_loop :: "'a DiffResult list \<Rightarrow> nat \<Rightarrow> 'a DiffResult list \<Rightarrow> 'a DiffResult list" where
  "merge_loop results i merged =
     (if i < length results then
        (if Suc i < length results
            \<and> type (results ! i) = DELETE \<and> type (results ! Suc i) = INSERT
         then merge_loop results (i + 2) (merged @
                [\<lparr>type = REPLACE, old_start = old_start (results ! i),
                  old_count = old_count (results ! i),
                  new_start = new_start (results ! Suc i),
                  new_count = new_count (results ! Suc i),
                  old_lines = old_lines (results ! i),
                  new_lines = new_lines (results ! Suc i)\<rparr>])
         else merge_loop results (i + 1) (merged @ [results ! i]))
      else merged)"
  by pat_completeness auto
termination
  by (relation "measure (\<lambda>(results, i, merged). length results - i)") auto

declare merge_loop.simps [simp del]

definition merge_replace_operations :: "'a DiffResult list \<Rightarrow> 'a DiffResult list" where
  "merge_replace_operations results = merge_loop results 0 []"

definition build_diff_results :: "'a list \<Rightarrow> 'a list \<Rightarrow> point list \<Rightarrow> 'a DiffResult list" where
  "build_diff_results sa sb path = merge_replace_operations (build_loop sa sb path 0 [])"

text \<open>\<open>MyersDiff.compute\<close> on an object built from \<open>seq_a\<close>, \<open>seq_b\<close> (kept for the
  line text of the results) and their preprocessed forms (compared by the search).\<close>

definition compute :: "'a list \<Rightarrow> 'a list \<Rightarrow> 'b list \<Rightarrow> 'b list \<Rightarrow> py_error + 'a DiffResult list" where
  "compute sa sb pa pb =
     (case find_shortest_edit_script pa pb of
        Inl e \<Rightarrow> Inl e
      | Inr edit_path \<Rightarrow> Inr (build_diff_results sa sb edit_path))"

section \<open>String primitives of Python used by the preprocessing\<close>

text \<open>A character of a line is a code point below 256, which is what the type
  \<open>char\<close> holds. \<open>is_space\<close> is the whitespace class of \<open>str.strip\<close>, \<open>str.split\<close>
  and the regular expression class \<open>\s\<close> on that range: tab to carriage return, the
  four separators 28 to 31, the space, the next-line control 133 and the no-break
  space 160.\<close>

definition is_space :: "char \<Rightarrow> bool" where
  "is_space c \<longleftrightarrow>
     (let n = (of_char c :: nat)
      in (9 \<le> n \<and> n \<le> 13) \<or> (28 \<le> n \<and> n \<le> 32) \<or> n = 133 \<or> n = 160)"

definition py_lstrip :: "string \<Rightarrow> string" where
  "py_lstrip s = dropWhile is_space s"

definition py_rstrip :: "string \<Rightarrow> string" where
  "py_rstrip s = rev (dropWhile is_space (rev s))"

definition py_strip :: "string \<Rightarrow> string" where
  "py_strip s = py_rstrip (py_lstrip s)"

text \<open>\<open>line.split()\<close>: the maximal runs of non-whitespace characters, \<open>cur\<close> being
  the run read so far.\<close>

fun split_words :: "string \<Rightarrow> string \<Rightarrow> string list" where
  "split_words cur [] = (if cur = [] then [] else [cur])"
| "split_words cur (c # cs) =
     (if is_space c then (if cur = [] then split_words [] cs else cur # split_words [] cs)
      else split_words (cur @ [c]) cs)"

definition py_split :: "string \<Rightarrow> string list" where
  "py_split s = split_words [] s"

fun py_join :: "string \<Rightarrow> string list \<Rightarrow> string" where
  "py_join sep [] = []"
| "py_join sep [x] = x"
| "py_join sep (x # y # ys) = x @ sep @ py_join sep (y # ys)"

text \<open>\<open>str.lower\<close> on code points below 256: the letters A to Z and the accented
  capitals 192 to 222, the multiplication sign 215 apart, move up by 32.\<close>

definition lower_char :: "char \<Rightarrow> char" where
  "lower_char c =
     (let n = (of_char c :: nat)
      in if (65 \<le> n \<and> n \<le> 90) \<or> (192 \<le> n \<and> n \<le> 214) \<or> (216 \<le> n \<and> n \<le> 222)
         then char_of (n + 32) else c)"

definition py_lower :: "string \<Rightarrow> string" where
  "py_lower s = map lower_char s"

section \<open>MyersDiff.__init__ and myers_diff\<close>

text \<open>\<open>MyersDiff._preprocess_sequence\<close> with the three flags of the constructor.\<close>

fun preprocess_sequence :: "bool \<Rightarrow> bool \<Rightarrow> bool \<Rightarrow> string list \<Rightarrow> string list" where
  "preprocess_sequence ignore_case ignore_whitespace ignore_blank_lines [] = []"
| "preprocess_sequence ignore_case ignore_whitespace ignore_blank_lines (line # seq) =
     (if ignore_blank_lines \<and> py_strip line = []
      then preprocess_sequence ignore_case ignore_whitespace ignore_blank_lines seq
      else
        (let l1 = (if ignore_whitespace then py_join '' '' (py_split line) else line);
             l2 = (if ignore_case then py_lower l1 else l1)
         in l2 # preprocess_sequence ignore_case ignore_whitespace ignore_blank_lines seq))"

definition myers_diff :: "string list \<Rightarrow> string list \<Rightarrow> bool \<Rightarrow> bool \<Rightarrow> bool
    \<Rightarrow> py_error + string DiffResult list" where
  "myers_diff seq_a seq_b ignore_case ignore_whitespace ignore_blank_lines =
     compute seq_a seq_b
       (preprocess_sequence ignore_case ignore_whitespace ignore_blank_lines seq_a)
       (preprocess_sequence ignore_case ignore_whitespace ignore_blank_lines seq_b)"

section \<open>format_diff_unified\<close>






section \<open>DiffEngine (core/diff_engine.py)\<close>

text \<open>The options dictionary. A regular expression is represented by what the
  \<open>re\<close> module does with it: a comment pattern by the substitution
  \<open>re.sub(pattern, '', _)\<close>, an ignore pattern by the test \<open>re.search(pattern, _)\<close>.
  \<open>comment_patterns\<close> holds the three default patterns when the key is absent.
  \<open>ratio_at_least_threshold old new\<close> stands for
  \<open>difflib.SequenceMatcher(None, old, new).ratio() >= 0.6\<close>.\<close>

record options =
  ignore_case :: bool
  ignore_whitespace :: bool
  ignore_blank_lines :: bool
  ignore_leading_whitespace :: bool
  ignore_trailing_whitespace :: bool
  ignore_comments :: bool
  comment_patterns :: "(string \<Rightarrow> string) list"
  ignore_line_patterns :: "(string \<Rightarrow> bool) list"
  fuzzy_matching :: bool
  moving_block_detection :: bool
  ratio_at_least_threshold :: "string \<Rightarrow> string \<Rightarrow> bool"

text \<open>An engine built without options: every \<open>options.get(_, False)\<close> is False.\<close>

definition no_options :: options where
  "no_options = \<lparr>ignore_case = False, ignore_whitespace = False, ignore_blank_lines = False,
     ignore_leading_whitespace = False, ignore_trailing_whitespace = False,
     ignore_comments = False, comment_patterns = [], ignore_line_patterns = [],
     fuzzy_matching = False, moving_block_detection = False,
     ratio_at_least_threshold = (\<lambda>old new. False)\<rparr>"

definition remove_comments :: "options \<Rightarrow> string \<Rightarrow> string" where
  "remove_comments opts line = fold (\<lambda>pattern l. pattern l) (comment_patterns opts) line"

fun matches_any_pattern :: "string \<Rightarrow> (string \<Rightarrow> bool) list \<Rightarrow> bool" where
  "matches_any_pattern line [] = False"
| "matches_any_pattern line (pattern # patterns) =
     (if pattern line then True else matches_any_pattern line patterns)"

fun preprocess_lines :: "options \<Rightarrow> string list \<Rightarrow> string list" where
  "preprocess_lines opts [] = []"
| "preprocess_lines opts (line # lines) =
     (if ignore_blank_lines opts \<and> py_strip line = [] then preprocess_lines opts lines
      else
        (let l1 = (if ignore_leading_whitespace opts then py_lstrip line else line);
             l2 = (if ignore_trailing_whitespace opts then py_rstrip l1 else l1);
             l3 = (if ignore_comments opts then remove_comments opts l2 else l2)
         in if ignore_line_patterns opts \<noteq> [] \<and> matches_any_pattern l3 (ignore_line_patterns opts)
            then preprocess_lines opts lines
            else l3 # preprocess_lines opts lines))"

function fuzzy_loop :: "options \<Rightarrow> string DiffResult list \<Rightarrow> nat \<Rightarrow> string DiffResult list
    \<Rightarrow> string DiffResult list" where
  "fuzzy_loop opts results i modified_results =
     (if i < length results then
        (if Suc i < length results
            \<and> type (results ! i) = DELETE \<and> type (results ! Suc i) = INSERT
            \<and> ratio_at_least_threshold opts
                  (py_join [CHR 0x0A] (old_lines (results ! i)))
                  (py_join [CHR 0x0A] (new_lines (results ! Suc i)))
         then fuzzy_loop opts results (i + 2) (modified_results @
                [\<lparr>type = REPLACE, old_start = old_start (results ! i),
                  old_count = old_count (results ! i),
                  new_start = new_start (results ! Suc i),
                  new_count = new_count (results ! Suc i),
                  old_lines = old_lines (results ! i),
                  new_lines = new_lines (results ! Suc i)\<rparr>])
         else fuzzy_loop opts results (i + 1) (modified_results @ [results ! i]))
      else modified_results)"
  by pat_completeness auto
termination
  by (relation "measure (\<lambda>(opts, results, i, modified_results). length results - i)") auto

declare fuzzy_loop.simps [simp del]

definition apply_fuzzy_matching :: "options \<Rightarrow> string DiffResult list \<Rightarrow> string DiffResult list" where
  "apply_fuzzy_matching opts results = fuzzy_loop opts results 0 []"

text \<open>\<open>_detect_moving_blocks\<close> collects candidate moves and returns its input.\<close>

definition detect_moving_blocks :: "string DiffResult list \<Rightarrow> string DiffResult list" where
  "detect_moving_blocks results = results"

definition compare_lines :: "options \<Rightarrow> string list \<Rightarrow> string list \<Rightarrow> py_error + string DiffResult list" where
  "compare_lines opts lines_a lines_b =
     (let processed_a = preprocess_lines opts lines_a;
          processed_b = preprocess_lines opts lines_b
      in case myers_diff processed_a processed_b
                (ignore_case opts) (ignore_whitespace opts) (ignore_blank_lines opts) of
           Inl e \<Rightarrow> Inl e
         | Inr results \<Rightarrow>
            (let r1 = (if fuzzy_matching opts then apply_fuzzy_matching opts results else results);
                 r2 = (if moving_block_detection opts then detect_moving_blocks r1 else r1)
             in Inr r2))"

subsection \<open>three_way_merge\<close>

text \<open>An entry of the change map. The dictionary built by \<open>_build_change_map\<close> always
  holds the three keys, so \<open>change.get('old_count', 1)\<close> is the stored count.\<close>

record change =
  change_type :: DiffType
  change_old_count :: int
  change_new_lines :: "string list"

record conflict =
  conflict_line :: int
  base_lines :: "string list"
  yours_lines :: "string list"
  theirs_lines :: "string list"

fun build_change_map :: "string DiffResult list \<Rightarrow> (int \<rightharpoonup> change) \<Rightarrow> (int \<rightharpoonup> change)" where
  "build_change_map [] change_map = change_map"
| "build_change_map (result # results) change_map =
     (if type result \<noteq> EQUAL
      then build_change_map results (change_map(old_start result \<mapsto>
             \<lparr>change_type = type result, change_old_count = old_count result,
               change_new_lines = new_lines result\<rparr>))
      else build_change_map results change_map)"

text \<open>The walk over the base lines. The result is \<open>None\<close> when the loop does not
  return; \<open>base_lines[i]\<close> raises IndexError outside the list.\<close>

partial_function (option) merge_walk :: "string list \<Rightarrow> (int \<rightharpoonup> change) \<Rightarrow> (int \<rightharpoonup> change)
    \<Rightarrow> int \<Rightarrow> string list \<Rightarrow> conflict list \<Rightarrow> (py_error + string list \<times> conflict list) option" where
  "merge_walk base yours_changes theirs_changes i merged_lines conflicts =
     (if i < int (length base) then
        (case (yours_changes i, theirs_changes i) of
           (None, None) \<Rightarrow>
             (let j = (if i < 0 then i + int (length base) else i)
              in if 0 \<le> j \<and> j < int (length base)
                 then merge_walk base yours_changes theirs_changes (i + 1)
                        (merged_lines @ [base ! nat j]) conflicts
                 else Some (Inl IndexError))
         | (Some yours_change, None) \<Rightarrow>
             merge_walk base yours_changes theirs_changes
               (i + (if change_old_count yours_change \<noteq> 0 then change_old_count yours_change else 1))
               (merged_lines @ change_new_lines yours_change) conflicts
         | (None, Some theirs_change) \<Rightarrow>
             merge_walk base yours_changes theirs_changes
               (i + (if change_old_count theirs_change \<noteq> 0 then change_old_count theirs_change else 1))
               (merged_lines @ change_new_lines theirs_change) conflicts
         | (Some yours_change, Some theirs_change) \<Rightarrow>
             (let step = max (change_old_count yours_change) (change_old_count theirs_change)
              in if change_new_lines yours_change = change_new_lines theirs_change
                 then merge_walk base yours_changes theirs_changes (i + step)
                        (merged_lines @ change_new_lines yours_change) conflicts
                 else merge_walk base yours_changes theirs_changes (i + step)
                        (merged_lines @ [''<<<<<<< YOURS''] @ change_new_lines yours_change
                           @ [''=======''] @ change_new_lines theirs_change @ [''>>>>>>> THEIRS''])
                        (conflicts @
                           [\<lparr>conflict_line = i,
                             base_lines = py_slice base i (i + step),
                             yours_lines = change_new_lines yours_change,
                             theirs_lines = change_new_lines theirs_change\<rparr>])))
      else Some (Inr (merged_lines, conflicts)))"

declare merge_walk.simps [code]

definition three_way_merge :: "options \<Rightarrow> string list \<Rightarrow> string list \<Rightarrow> string list
    \<Rightarrow> (py_error + string list \<times> conflict list) option" where
  "three_way_merge opts base yours theirs =
     (case compare_lines opts base yours of
        Inl e \<Rightarrow> Some (Inl e)
      | Inr yours_diff \<Rightarrow>
         (case compare_lines opts base theirs of
            Inl e \<Rightarrow> Some (Inl e)
          | Inr theirs_diff \<Rightarrow>
              merge_walk base (build_change_map yours_diff Map.empty)
                (build_change_map theirs_diff Map.empty) 0 [] []))"

subsection \<open>compare_words\<close>

record WordDiff =
  word_type :: DiffType
  word :: string
  start_pos :: int
  end_pos :: int

text \<open>\<open>re.findall(r'\S+|\s+', line)\<close>: the maximal runs of characters of one class,
  whitespace or not, in order.\<close>

fun tokenize :: "string \<Rightarrow> string list" where
  "tokenize [] = []"
| "tokenize (c # cs) =
     (case tokenize cs of
        [] \<Rightarrow> [[c]]
      | w # ws \<Rightarrow> if is_space (hd w) = is_space c then (c # w) # ws else [c] # w # ws)"

datatype opcode_tag = Tag_equal | Tag_delete | Tag_insert | Tag_replace

type_synonym opcode = "opcode_tag \<times> nat \<times> nat \<times> nat \<times> nat"

text \<open>What the documentation of \<open>difflib.SequenceMatcher.get_opcodes\<close> promises about
  the list it returns for sequences \<open>a\<close> and \<open>b\<close>: the first tuple starts at
  \<open>i1 = j1 = 0\<close>, each tuple starts where the one before ends, the last one ends at the
  lengths; \<open>equal\<close> means \<open>a[i1:i2] == b[j1:j2]\<close>, \<open>delete\<close> has \<open>j1 == j2\<close>,
  \<open>insert\<close> has \<open>i1 == i2\<close>.\<close>

fun opcodes_from :: "'a list \<Rightarrow> 'a list \<Rightarrow> nat \<Rightarrow> nat \<Rightarrow> opcode list \<Rightarrow> bool" where
  "opcodes_from a b i j [] \<longleftrightarrow> i = length a \<and> j = length b"
| "opcodes_from a b i j ((tag, i1, i2, j1, j2) # ops) \<longleftrightarrow>
     i1 = i \<and> j1 = j \<and> i1 \<le> i2 \<and> j1 \<le> j2 \<and> i2 \<le> length a \<and> j2 \<le> length b
     \<and> (case tag of
          Tag_equal \<Rightarrow> take (i2 - i1) (drop i1 a) = take (j2 - j1) (drop j1 b)
        | Tag_delete \<Rightarrow> j1 = j2
        | Tag_insert \<Rightarrow> i1 = i2
        | Tag_replace \<Rightarrow> True)
     \<and> opcodes_from a b i2 j2 ops"

definition opcodes_contract :: "'a list \<Rightarrow> 'a list \<Rightarrow> opcode list \<Rightarrow> bool" where
  "opcodes_contract a b ops = opcodes_from a b 0 0 ops"

text \<open>\<open>for i in range(i1, i2)\<close> appending one WordDiff per word and advancing the
  position of that side.\<close>

fun emit_words :: "DiffType \<Rightarrow> string list \<Rightarrow> nat list \<Rightarrow> int \<Rightarrow> WordDiff list
    \<Rightarrow> py_error + WordDiff list \<times> int" where
  "emit_words ty words [] pos word_diffs = Inr (word_diffs, pos)"
| "emit_words ty words (i # rest) pos word_diffs =
     (case py_index words (int i) of
        Inl e \<Rightarrow> Inl e
      | Inr w \<Rightarrow>
          emit_words ty words rest (pos + int (length w))
            (word_diffs @ [\<lparr>word_type = ty, word = w, start_pos = pos,
                            end_pos = pos + int (length w)\<rparr>]))"

fun opcode_loop :: "string list \<Rightarrow> string list \<Rightarrow> opcode list \<Rightarrow> WordDiff list \<Rightarrow> int \<Rightarrow> int
    \<Rightarrow> py_error + WordDiff list" where
  "opcode_loop words_a words_b [] word_diffs pos_a pos_b = Inr word_diffs"
| "opcode_loop words_a words_b ((tag, i1, i2, j1, j2) # ops) word_diffs pos_a pos_b =
     (case tag of
        Tag_equal \<Rightarrow>
          (case emit_words EQUAL words_a [i1..<i2] pos_a word_diffs of
             Inl e \<Rightarrow> Inl e
           | Inr (wd, pa) \<Rightarrow>
               opcode_loop words_a words_b ops wd pa
                 (pos_b + int (sum_list (map length (py_slice words_b (int j1) (int j2))))))
      | Tag_delete \<Rightarrow>
          (case emit_words DELETE words_a [i1..<i2] pos_a word_diffs of
             Inl e \<Rightarrow> Inl e
           | Inr (wd, pa) \<Rightarrow> opcode_loop words_a words_b ops wd pa pos_b)
      | Tag_insert \<Rightarrow>
          (case emit_words INSERT words_b [j1..<j2] pos_b word_diffs of
             Inl e \<Rightarrow> Inl e
           | Inr (wd, pb) \<Rightarrow> opcode_loop words_a words_b ops wd pos_a pb)
      | Tag_replace \<Rightarrow>
          (case emit_words DELETE words_a [i1..<i2] pos_a word_diffs of
             Inl e \<Rightarrow> Inl e
           | Inr (wd, pa) \<Rightarrow>
               (case emit_words INSERT words_b [j1..<j2] pos_b wd of
                  Inl e \<Rightarrow> Inl e
                | Inr (wd', pb) \<Rightarrow> opcode_loop words_a words_b ops wd' pa pb)))"

text \<open>\<open>compare_words\<close>, given the list \<open>opcodes\<close> that
  \<open>SequenceMatcher(None, words_a, words_b).get_opcodes()\<close> returns.\<close>

definition compare_words :: "opcode list \<Rightarrow> string \<Rightarrow> string \<Rightarrow> py_error + WordDiff list" where
  "compare_words opcodes line_a line_b =
     opcode_loop (tokenize line_a) (tokenize line_b) opcodes [] 0 0"

section \<open>Vocabulary of the properties\<close>

text \<open>The entries of a word diff that belong to the first line, and those that belong
  to the second.\<close>

definition old_side :: "WordDiff \<Rightarrow> bool" where
  "old_side w \<longleftrightarrow> word_type w = EQUAL \<or> word_type w = DELETE"

definition new_side :: "WordDiff \<Rightarrow> bool" where
  "new_side w \<longleftrightarrow> word_type w = EQUAL \<or> word_type w = INSERT"

text \<open>A step of a path: one line of B, one line of A, or a diagonal move.\<close>

definition step_ok :: "point \<Rightarrow> point \<Rightarrow> bool" where
  "step_ok p q \<longleftrightarrow>
     (fst q = fst p \<and> snd q = snd p + 1) \<or> (fst q = fst p + 1 \<and> snd q = snd p)
     \<or> (fst q > fst p \<and> snd q > snd p)"

fun path_ok :: "point list \<Rightarrow> bool" where
  "path_ok (p # q # rest) \<longleftrightarrow> step_ok p q \<and> path_ok (q # rest)"
| "path_ok _ \<longleftrightarrow> True"

text \<open>The number of steps of a path that are not diagonal moves.\<close>

fun edit_steps :: "point list \<Rightarrow> int" where
  "edit_steps (p # q # rest) =
     (if fst q > fst p \<and> snd q > snd p then 0 else 1) + edit_steps (q # rest)"
| "edit_steps _ = 0"

text \<open>The non-Equal line-units of an operation list: \<open>old_count\<close> of every Delete and
  Replace plus \<open>new_count\<close> of every Insert and Replace.\<close>

definition op_units :: "'a DiffResult \<Rightarrow> int" where
  "op_units r =
     (if type r = DELETE \<or> type r = REPLACE then old_count r else 0)
     + (if type r = INSERT \<or> type r = REPLACE then new_count r else 0)"

definition non_equal_units :: "'a DiffResult list \<Rightarrow> int" where
  "non_equal_units ops = sum_list (map op_units ops)"

text \<open>\<open>chain sa sb s ops e\<close>: the operations lead from the point \<open>s\<close> to the point \<open>e\<close>,
  each one starting where the one before ends, with counts that are not negative and
  with line fields that are the slices of \<open>sa\<close> and \<open>sb\<close> it spans.\<close>

fun chain :: "'a list \<Rightarrow> 'a list \<Rightarrow> point \<Rightarrow> 'a DiffResult list \<Rightarrow> point \<Rightarrow> bool" where
  "chain sa sb s [] e \<longleftrightarrow> s = e"
| "chain sa sb s (r # rs) e \<longleftrightarrow>
     old_start r = fst s \<and> new_start r = snd s \<and> 0 \<le> old_count r \<and> 0 \<le> new_count r
     \<and> (type r = INSERT \<longrightarrow> old_count r = 0) \<and> (type r = DELETE \<longrightarrow> new_count r = 0)
     \<and> old_lines r = py_slice sa (old_start r) (old_start r + old_count r)
     \<and> new_lines r = py_slice sb (new_start r) (new_start r + new_count r)
     \<and> chain sa sb (fst s + old_count r, snd s + new_count r) rs e"

text \<open>The edit graph of the two compared sequences: \<open>reach pa pb e x y\<close> holds when the
  point \<open>(x, y)\<close> is the end of a path from the origin with exactly \<open>e\<close> moves that are
  not diagonal. Diagonal moves need equal elements and exist inside the grid only;
  the other moves are not bounded, as in the search, which does not bound them either.\<close>

inductive reach :: "'a list \<Rightarrow> 'a list \<Rightarrow> int \<Rightarrow> int \<Rightarrow> int \<Rightarrow> bool" for pa pb where
  reach_start: "reach pa pb 0 0 0"
| reach_diag: "reach pa pb e x y \<Longrightarrow> x < int (length pa) \<Longrightarrow> y < int (length pb)
     \<Longrightarrow> pa ! nat x = pb ! nat y \<Longrightarrow> reach pa pb e (x + 1) (y + 1)"
| reach_right: "reach pa pb e x y \<Longrightarrow> reach pa pb (e + 1) (x + 1) y"
| reach_down: "reach pa pb e x y \<Longrightarrow> reach pa pb (e + 1) x (y + 1)"

text \<open>The furthest x on diagonal k with e edits.\<close>

definition furthest :: "'a list \<Rightarrow> 'a list \<Rightarrow> int \<Rightarrow> int \<Rightarrow> int \<Rightarrow> bool" where
  "furthest pa pb e k x \<longleftrightarrow>
     reach pa pb e x (x - k) \<and> (\<forall>x'. reach pa pb e x' (x' - k) \<longrightarrow> x' \<le> x)"

text \<open>The dictionary after all diagonals of distance e, and at the start of distance d.\<close>

definition round_done :: "'a list \<Rightarrow> 'a list \<Rightarrow> int \<Rightarrow> (int \<rightharpoonup> int) \<Rightarrow> bool" where
  "round_done pa pb e v \<longleftrightarrow>
     (\<forall>k. - e \<le> k \<and> k \<le> e \<and> even (e - k) \<longrightarrow> (\<exists>x. v k = Some x \<and> furthest pa pb e k x))"

definition ready :: "'a list \<Rightarrow> 'a list \<Rightarrow> int \<Rightarrow> (int \<rightharpoonup> int) \<Rightarrow> bool" where
  "ready pa pb d v \<longleftrightarrow> (if d = 0 then v 1 = Some 0 else round_done pa pb (d - 1) v)"

text \<open>A run of equal elements on diagonal k from \<open>x0\<close> up to \<open>x\<close>.\<close>

definition matches :: "'a list \<Rightarrow> 'a list \<Rightarrow> int \<Rightarrow> int \<Rightarrow> int \<Rightarrow> bool" where
  "matches pa pb k x0 x \<longleftrightarrow>
     x0 \<le> x \<and> (\<forall>t. x0 \<le> t \<and> t < x \<longrightarrow>
        t < int (length pa) \<and> t - k < int (length pb) \<and> pa ! nat t = pb ! nat (t - k))"

text \<open>The point where the search enters diagonal k at distance d.\<close>

definition entry :: "(int \<rightharpoonup> int) \<Rightarrow> int \<Rightarrow> int \<Rightarrow> int" where
  "entry v d k = (if move_down v d k then dict_get v (k + 1) 0 else dict_get v (k - 1) 0 + 1)"

text \<open>Every snapshot of the trace is the dictionary at the start of its distance.\<close>

definition trace_ok :: "'a list \<Rightarrow> 'a list \<Rightarrow> (int \<rightharpoonup> int) list \<Rightarrow> bool" where
  "trace_ok pa pb trace \<longleftrightarrow> (\<forall>e. e < length trace \<longrightarrow> ready pa pb (int e) (trace ! e))"

text \<open>The least number of edits that leads to the end of both sequences.\<close>

definition shortest :: "'a list \<Rightarrow> 'a list \<Rightarrow> int \<Rightarrow> bool" where
  "shortest pa pb d \<longleftrightarrow>
     reach pa pb d (int (length pa)) (int (length pb))
     \<and> (\<forall>e. e < d \<longrightarrow> \<not> reach pa pb e (int (length pa)) (int (length pb)))"

text \<open>The length of a longest common subsequence, by the textbook recursion;
  \<open>lcs_attained\<close> and \<open>lcs_greatest\<close> below show that it is one.\<close>

fun lcs :: "'a list \<Rightarrow> 'a list \<Rightarrow> nat" where
  "lcs [] ys = 0"
| "lcs (x # xs) [] = 0"
| "lcs (x # xs) (y # ys) =
     (if x = y then Suc (lcs xs ys) else max (lcs xs (y # ys)) (lcs (x # xs) ys))"

text \<open>The sequence the search compares for the lines given to \<open>compare_lines\<close>: both
  preprocessing passes applied.\<close>

definition diffed :: "options \<Rightarrow> string list \<Rightarrow> string list" where
  "diffed opts lines =
     preprocess_sequence (ignore_case opts) (ignore_whitespace opts) (ignore_blank_lines opts)
       (preprocess_lines opts lines)"

text \<open>The second pass, \<open>MyersDiff._preprocess_sequence\<close>, drops no line of what the first
  pass returns.\<close>

definition drops_nothing :: "options \<Rightarrow> string list \<Rightarrow> bool" where
  "drops_nothing opts lines \<longleftrightarrow>
     \<not> ignore_blank_lines opts \<or> list_all (\<lambda>l. py_strip l \<noteq> []) (preprocess_lines opts lines)"

section \<open>Properties\<close>

subsection \<open>Scenarios evaluated on the code\<close>

text \<open>C5, as the code behaves: \<open>compare_lines([], ["x", "y"])\<close> without options returns
  two Insert operations, one for each step of the path, each with \<open>old_count = 0\<close> and
  \<open>new_count = 1\<close>: the first carries \<open>["x"]\<close> at \<open>new_start = 0\<close>, the second
  \<open>["y"]\<close> at \<open>new_start = 1\<close>.\<close>

theorem compare_lines_empty_vs_two:
  "compare_lines no_options [] [''x'', ''y''] = Inr
     [\<lparr>type = INSERT, old_start = 0, old_count = 0, new_start = 0, new_count = 1,
        old_lines = [], new_lines = [''x'']\<rparr>,
      \<lparr>type = INSERT, old_start = 0, old_count = 0, new_start = 1, new_count = 1,
        old_lines = [], new_lines = [''y'']\<rparr>]"
  by code_simp

text \<open>C5, as stated: the result would be the single operation Insert with
  \<open>new_lines = ["x", "y"]\<close>, \<open>new_count = 2\<close> and \<open>old_count = 0\<close>. The code does not
  return a list of one operation, and no operation of its result has \<open>new_count = 2\<close>.\<close>

theorem compare_lines_empty_vs_two_not_single:
  "(case compare_lines no_options [] [''x'', ''y''] of
      Inl e \<Rightarrow> False
    | Inr ops \<Rightarrow> length ops = 2 \<and> length ops \<noteq> 1
        \<and> list_all (\<lambda>r. new_count r = 1 \<and> new_lines r \<noteq> [''x'', ''y'']) ops)"
  by code_simp


subsection \<open>three_way_merge\<close>

lemma merge_walk_stuck:
  assumes y: "yc 0 = Some y" and t: "tc 0 = Some t"
    and y0: "change_old_count y = 0" and t0: "change_old_count t = 0" and b: "base \<noteq> []"
  shows "merge_walk base yc tc 0 merged conflicts = None"
proof (rule ccontr)
  assume "merge_walk base yc tc 0 merged conflicts \<noteq> None"
  then obtain r where r: "merge_walk base yc tc 0 merged conflicts = Some r" by auto
  have "\<not> (base = base \<and> yc = yc \<and> tc = tc \<and> (0::int) = 0)"
    by (rule merge_walk.raw_induct
          [where P = "\<lambda>base' yc' tc' i m c r. \<not> (base' = base \<and> yc' = yc \<and> tc' = tc \<and> i = 0)",
           OF _ r])
       (use y t y0 t0 b in \<open>auto simp: Let_def split: if_splits; blast\<close>)
  then show False by simp
qed

text \<open>C4 fails on the code: for base = ["a"], yours = ["x", "a"], theirs = ["y", "a"]
  both sides hold a pure insertion (\<open>old_count = 0\<close>) at base index 0, the walk advances by
  \<open>max(0, 0) = 0\<close> and never returns.\<close>

theorem three_way_merge_diverges:
  "three_way_merge no_options [''a''] [''x'', ''a''] [''y'', ''a''] = None"
proof -
  have y: "compare_lines no_options [''a''] [''x'', ''a''] = Inr
     [\<lparr>type = INSERT, old_start = 0, old_count = 0, new_start = 0, new_count = 1,
        old_lines = [], new_lines = [''x'']\<rparr>,
      \<lparr>type = EQUAL, old_start = 0, old_count = 1, new_start = 1, new_count = 1,
        old_lines = [''a''], new_lines = [''a'']\<rparr>]"
    by code_simp
  have t: "compare_lines no_options [''a''] [''y'', ''a''] = Inr
     [\<lparr>type = INSERT, old_start = 0, old_count = 0, new_start = 0, new_count = 1,
        old_lines = [], new_lines = [''y'']\<rparr>,
      \<lparr>type = EQUAL, old_start = 0, old_count = 1, new_start = 1, new_count = 1,
        old_lines = [''a''], new_lines = [''a'']\<rparr>]"
    by code_simp
  show ?thesis
    unfolding three_way_merge_def y t
    by (simp add: merge_walk_stuck)
qed

subsection \<open>compare_words\<close>

lemma concat_tokenize: "concat (tokenize s) = s"
  by (induction s) (auto split: list.splits)

lemma emit_words_result:
  assumes "\<forall>i \<in> set idx. i < length words"
  shows "\<exists>ws pos'. emit_words ty words idx pos acc = Inr (acc @ ws, pos')
     \<and> map word ws = map ((!) words) idx
     \<and> (\<forall>w \<in> set ws. word_type w = ty \<and> end_pos w - start_pos w = int (length (word w)))"
  using assms
proof (induction idx arbitrary: pos acc)
  case Nil
  then show ?case by simp
next
  case (Cons i idx)
  let ?w = "\<lparr>word_type = ty, word = words ! i, start_pos = pos, end_pos = pos + int (length (words ! i))\<rparr>"
  from Cons.prems have i: "i < length words" and rest: "\<forall>i \<in> set idx. i < length words" by auto
  from Cons.IH[OF rest, of "pos + int (length (words ! i))" "acc @ [?w]"]
  obtain ws pos' where
    e: "emit_words ty words idx (pos + int (length (words ! i))) (acc @ [?w]) = Inr ((acc @ [?w]) @ ws, pos')"
    and m: "map word ws = map ((!) words) idx"
    and p: "\<forall>w \<in> set ws. word_type w = ty \<and> end_pos w - start_pos w = int (length (word w))"
    by blast
  have "emit_words ty words (i # idx) pos acc = Inr (acc @ (?w # ws), pos')"
    using i e by (simp add: py_index_def)
  moreover have "map word (?w # ws) = map ((!) words) (i # idx)" using m by simp
  moreover have "\<forall>w \<in> set (?w # ws). word_type w = ty \<and> end_pos w - start_pos w = int (length (word w))"
    using p by simp
  ultimately show ?case by blast
qed

lemma map_nth_upt_take_drop:
  "i2 \<le> length xs \<Longrightarrow> map ((!) xs) [i1..<i2] = take (i2 - i1) (drop i1 xs)"
  by (rule nth_equalityI) auto

lemma emit_words_range:
  assumes "i2 \<le> length words"
  shows "\<exists>ws pos'. emit_words ty words [i1..<i2] pos acc = Inr (acc @ ws, pos')
     \<and> map word ws = take (i2 - i1) (drop i1 words)
     \<and> (\<forall>w \<in> set ws. word_type w = ty \<and> end_pos w - start_pos w = int (length (word w)))"
proof -
  have "\<forall>i \<in> set [i1..<i2]. i < length words" using assms by auto
  from emit_words_result[OF this, of ty pos acc]
  show ?thesis using assms by (simp add: map_nth_upt_take_drop)
qed

lemma concat_take_drop_step:
  "i1 \<le> i2 \<Longrightarrow> i2 \<le> length (a :: 'a list list) \<Longrightarrow> concat (take (i2 - i1) (drop i1 a)) @ concat (drop i2 a) = concat (drop i1 a)"
proof -
  assume "i1 \<le> i2" "i2 \<le> length a"
  then have "drop i1 a = take (i2 - i1) (drop i1 a) @ drop i2 a"
    by (metis append_take_drop_id drop_drop le_add_diff_inverse2)
  then show ?thesis by (metis concat_append)
qed

lemma opcode_loop_result:
  assumes "opcodes_from wa wb i j ops"
  shows "\<exists>wds. opcode_loop wa wb ops acc pa pb = Inr (acc @ wds)
     \<and> concat (map word (filter old_side wds)) = concat (drop i wa)
     \<and> concat (map word (filter new_side wds)) = concat (drop j wb)
     \<and> (\<forall>w \<in> set wds. end_pos w - start_pos w = int (length (word w)))"
  using assms
proof (induction ops arbitrary: i j acc pa pb)
  case Nil
  then show ?case by simp
next
  case (Cons op ops)
  obtain tag i1 i2 j1 j2 where op: "op = (tag, i1, i2, j1, j2)" by (cases op) auto
  from Cons.prems op have b: "i1 = i" "j1 = j" "i1 \<le> i2" "j1 \<le> j2" "i2 \<le> length wa" "j2 \<le> length wb"
    and rest: "opcodes_from wa wb i2 j2 ops" by auto
  note stepa = concat_take_drop_step[OF b(3) b(5)]
  note stepb = concat_take_drop_step[OF b(4) b(6)]
  show ?case
  proof (cases tag)
    case Tag_equal
    have eq: "take (i2 - i1) (drop i1 wa) = take (j2 - j1) (drop j1 wb)"
      using Cons.prems unfolding op Tag_equal by auto
    obtain ws pos' where e: "emit_words EQUAL wa [i1..<i2] pa acc = Inr (acc @ ws, pos')"
      and m: "map word ws = take (i2 - i1) (drop i1 wa)"
      and p: "\<forall>w \<in> set ws. word_type w = EQUAL \<and> end_pos w - start_pos w = int (length (word w))"
      using emit_words_range[OF b(5), of EQUAL i1 pa acc] by blast
    from Cons.IH[OF rest, of "acc @ ws" pos'] obtain wds where
      l: "\<And>pb'. \<exists>wds. opcode_loop wa wb ops (acc @ ws) pos' pb' = Inr ((acc @ ws) @ wds)
     \<and> concat (map word (filter old_side wds)) = concat (drop i2 wa)
     \<and> concat (map word (filter new_side wds)) = concat (drop j2 wb)
     \<and> (\<forall>w \<in> set wds. end_pos w - start_pos w = int (length (word w)))" 
      using Cons.IH[OF rest, of "acc @ ws" pos'] by blast
    have fo: "filter old_side ws = ws" "filter new_side ws = ws"
      using p by (auto simp: old_side_def new_side_def filter_id_conv)
    show ?thesis
      using l[of "pb + int (sum_list (map length (py_slice wb (int j1) (int j2))))"]
        e m p stepa stepb eq fo b(1,2)
      by (auto simp: op Tag_equal)
  next
    case Tag_delete
    have eq: "j1 = j2" using Cons.prems unfolding op Tag_delete by auto
    obtain ws pos' where e: "emit_words DELETE wa [i1..<i2] pa acc = Inr (acc @ ws, pos')"
      and m: "map word ws = take (i2 - i1) (drop i1 wa)"
      and p: "\<forall>w \<in> set ws. word_type w = DELETE \<and> end_pos w - start_pos w = int (length (word w))"
      using emit_words_range[OF b(5), of DELETE i1 pa acc] by blast
    have fo: "filter old_side ws = ws" "filter new_side ws = []"
      using p by (auto simp: old_side_def new_side_def filter_id_conv filter_empty_conv)
    show ?thesis
      using Cons.IH[OF rest, of "acc @ ws" pos' pb] e m p stepa eq fo b(1,2)
      by (auto simp: op Tag_delete)
  next
    case Tag_insert
    have eq: "i1 = i2" using Cons.prems unfolding op Tag_insert by auto
    obtain ws pos' where e: "emit_words INSERT wb [j1..<j2] pb acc = Inr (acc @ ws, pos')"
      and m: "map word ws = take (j2 - j1) (drop j1 wb)"
      and p: "\<forall>w \<in> set ws. word_type w = INSERT \<and> end_pos w - start_pos w = int (length (word w))"
      using emit_words_range[OF b(6), of INSERT j1 pb acc] by blast
    have fo: "filter old_side ws = []" "filter new_side ws = ws"
      using p by (auto simp: old_side_def new_side_def filter_id_conv filter_empty_conv)
    show ?thesis
      using Cons.IH[OF rest, of "acc @ ws" pa pos'] e m p stepb eq fo b(1,2)
      by (auto simp: op Tag_insert)
  next
    case Tag_replace
    obtain ws pos' where e: "emit_words DELETE wa [i1..<i2] pa acc = Inr (acc @ ws, pos')"
      and m: "map word ws = take (i2 - i1) (drop i1 wa)"
      and p: "\<forall>w \<in> set ws. word_type w = DELETE \<and> end_pos w - start_pos w = int (length (word w))"
      using emit_words_range[OF b(5), of DELETE i1 pa acc] by blast
    obtain ws2 pos2 where e2: "emit_words INSERT wb [j1..<j2] pb (acc @ ws) = Inr ((acc @ ws) @ ws2, pos2)"
      and m2: "map word ws2 = take (j2 - j1) (drop j1 wb)"
      and p2: "\<forall>w \<in> set ws2. word_type w = INSERT \<and> end_pos w - start_pos w = int (length (word w))"
      using emit_words_range[OF b(6), of INSERT j1 pb "acc @ ws"] by blast
    have fo: "filter old_side ws = ws" "filter new_side ws = []"
      using p by (auto simp: old_side_def new_side_def filter_id_conv filter_empty_conv)
    have fo2: "filter old_side ws2 = []" "filter new_side ws2 = ws2"
      using p2 by (auto simp: old_side_def new_side_def filter_id_conv filter_empty_conv)
    show ?thesis
      using Cons.IH[OF rest, of "(acc @ ws) @ ws2" pos' pos2] e m p e2 m2 p2 stepa stepb fo fo2 b(1,2)
      by (auto simp: op Tag_replace)
  qed
qed

text \<open>C10: whenever the opcode list is one that \<open>get_opcodes\<close> may return for the two
  token lists, \<open>compare_words\<close> returns a list whose EQUAL and DELETE words concatenate
  to \<open>line_a\<close>, whose EQUAL and INSERT words concatenate to \<open>line_b\<close>, and every entry
  has \<open>end_pos - start_pos = len(word)\<close>.\<close>

theorem compare_words_reconstructs:
  assumes "opcodes_contract (tokenize line_a) (tokenize line_b) opcodes"
  shows "\<exists>word_diffs. compare_words opcodes line_a line_b = Inr word_diffs
     \<and> concat (map word (filter (\<lambda>w. word_type w = EQUAL \<or> word_type w = DELETE) word_diffs)) = line_a
     \<and> concat (map word (filter (\<lambda>w. word_type w = EQUAL \<or> word_type w = INSERT) word_diffs)) = line_b
     \<and> (\<forall>w \<in> set word_diffs. end_pos w - start_pos w = int (length (word w)))"
  using opcode_loop_result[of "tokenize line_a" "tokenize line_b" 0 0 opcodes "[]" 0 0] assms
  unfolding compare_words_def opcodes_contract_def old_side_def[abs_def] new_side_def[abs_def]
  by (simp add: concat_tokenize)

theorem compare_words_reconstructs_witness:
  "opcodes_contract (tokenize ''a  b'') (tokenize ''a  cd'')
       [(Tag_equal, 0, 2, 0, 2), (Tag_replace, 2, 3, 2, 3)]
   \<and> (\<exists>word_diffs.
         compare_words [(Tag_equal, 0, 2, 0, 2), (Tag_replace, 2, 3, 2, 3)] ''a  b'' ''a  cd''
           = Inr word_diffs
       \<and> concat (map word (filter (\<lambda>w. word_type w = EQUAL \<or> word_type w = DELETE) word_diffs))
           = ''a  b''
       \<and> concat (map word (filter (\<lambda>w. word_type w = EQUAL \<or> word_type w = INSERT) word_diffs))
           = ''a  cd''
       \<and> (\<forall>w \<in> set word_diffs. end_pos w - start_pos w = int (length (word w))))"
proof -
  have h: "opcodes_contract (tokenize ''a  b'') (tokenize ''a  cd'')
       [(Tag_equal, 0, 2, 0, 2), (Tag_replace, 2, 3, 2, 3)]"
    by code_simp
  from compare_words_reconstructs[OF h] h show ?thesis by blast
qed

subsection \<open>Building the operations from a path\<close>

lemma chain_append:
  "chain sa sb s (xs @ ys) e \<longleftrightarrow> (\<exists>mid. chain sa sb s xs mid \<and> chain sa sb mid ys e)"
  by (induction xs arbitrary: s) auto

lemma chain_snoc:
  "chain sa sb s xs mid \<Longrightarrow> chain sa sb mid [r] e \<Longrightarrow> chain sa sb s (xs @ [r]) e"
  using chain_append by blast

lemma path_ok_nth: "path_ok path \<Longrightarrow> Suc i < length path \<Longrightarrow> step_ok (path ! i) (path ! Suc i)"
proof (induction path arbitrary: i rule: path_ok.induct)
  case (1 p q rest)
  then show ?case by (cases i) auto
qed auto

lemma edit_steps_drop:
  "Suc i < length path \<Longrightarrow>
   edit_steps (drop i path) =
     (if fst (path ! Suc i) > fst (path ! i) \<and> snd (path ! Suc i) > snd (path ! i) then 0 else 1)
     + edit_steps (drop (Suc i) path)"
proof -
  assume a: "Suc i < length path"
  then have "drop i path = path ! i # path ! Suc i # drop (Suc (Suc i)) path"
    by (metis Cons_nth_drop_Suc Suc_lessD)
  moreover have "drop (Suc i) path = path ! Suc i # drop (Suc (Suc i)) path"
    using a by (metis Cons_nth_drop_Suc)
  ultimately show ?thesis by simp
qed

lemma equal_block_end_ge: "j \<le> equal_block_end path j"
proof (induction path j rule: equal_block_end.induct)
  case (1 path j)
  show ?case
    using 1 by (subst equal_block_end.simps) (auto dest: Suc_leD)
qed

lemma equal_block_end_less: "j < length path \<Longrightarrow> equal_block_end path j < length path"
proof (induction path j rule: equal_block_end.induct)
  case (1 path j)
  show ?case
    using 1 by (subst equal_block_end.simps) auto
qed

lemma equal_block_end_mono:
  "fst (path ! j) \<le> fst (path ! equal_block_end path j)
   \<and> snd (path ! j) \<le> snd (path ! equal_block_end path j)"
proof (induction path j rule: equal_block_end.induct)
  case (1 path j)
  show ?case
    using 1 by (subst (1 2) equal_block_end.simps) auto
qed

lemma equal_block_end_edit_steps:
  "j < length path \<Longrightarrow> edit_steps (drop (equal_block_end path j) path) = edit_steps (drop j path)"
proof (induction path j rule: equal_block_end.induct)
  case (1 path j)
  show ?case
  proof (cases "Suc j < length path \<and> fst (path ! Suc j) = fst (path ! j) + 1
                 \<and> snd (path ! Suc j) = snd (path ! j) + 1")
    case True
    then have "equal_block_end path j = equal_block_end path (Suc j)"
      by (subst equal_block_end.simps) simp
    moreover have "edit_steps (drop (equal_block_end path (Suc j)) path) = edit_steps (drop (Suc j) path)"
      using 1 True by simp
    moreover have "edit_steps (drop j path) = edit_steps (drop (Suc j) path)"
      using True by (simp add: edit_steps_drop)
    ultimately show ?thesis by simp
  next
    case False
    then have "equal_block_end path j = j"
      by (subst equal_block_end.simps) auto
    then show ?thesis by simp
  qed
qed

lemma py_slice_empty [simp]: "py_slice xs i i = []"
  by (simp add: py_slice_def)

lemma non_equal_units_append [simp]:
  "non_equal_units (xs @ ys) = non_equal_units xs + non_equal_units ys"
  by (simp add: non_equal_units_def)

lemma build_loop_chain_units:
  assumes "path_ok path" "i < length path" "chain sa sb s acc (path ! i)"
  shows "chain sa sb s (build_loop sa sb path i acc) (last path)
    \<and> non_equal_units (build_loop sa sb path i acc) = non_equal_units acc + edit_steps (drop i path)"
  using assms
proof (induction sa sb path i acc rule: build_loop.induct)
  case (1 sa sb path i results)
  show ?case
  proof (cases "Suc i < length path")
    case False
    with 1(6) have "path ! i = last path"
      by (metis Suc_lessI last_conv_nth length_greater_0_conv less_nat_zero_code diff_Suc_1 list.size(3))
    moreover have "drop i path = [path ! i]"
      using False 1(6) by (metis Cons_nth_drop_Suc drop_all not_less_eq not_less)
    ultimately show ?thesis using False 1(7) by (subst (1 2) build_loop.simps) simp
  next
    case True
    define x1 y1 x2 y2 where "x1 = fst (path ! i)" and "y1 = snd (path ! i)"
      and "x2 = fst (path ! Suc i)" and "y2 = snd (path ! Suc i)"
    note d = x1_def y1_def x2_def y2_def
    have st: "step_ok (path ! i) (path ! Suc i)" using path_ok_nth[OF 1(5) True] .
    consider (eq) "x2 > x1 \<and> y2 > y1" | (ins) "x2 = x1 \<and> y2 = y1 + 1" | (del) "x2 = x1 + 1 \<and> y2 = y1"
      using st unfolding step_ok_def d by auto
    then show ?thesis
    proof cases
      case eq
      define j where "j = equal_block_end path (Suc i)"
      let ?r = "\<lparr>type = EQUAL, old_start = x1, old_count = fst (path ! j) - x1,
                       new_start = y1, new_count = snd (path ! j) - y1,
                       old_lines = py_slice sa x1 (fst (path ! j)),
                       new_lines = py_slice sb y1 (snd (path ! j))\<rparr>"
      have jl: "j < length path" unfolding j_def using True by (intro equal_block_end_less)
      have mono: "x2 \<le> fst (path ! j)" "y2 \<le> snd (path ! j)"
        using equal_block_end_mono[of path "Suc i"] unfolding j_def d by auto
      have "chain sa sb (path ! i) [?r] (path ! j)"
        using eq mono by (simp add: d)
      then have c: "chain sa sb s (results @ [?r]) (path ! j)"
        using 1(7) chain_snoc by blast
      have ih: "chain sa sb s (build_loop sa sb path j (results @ [?r])) (last path)
          \<and> non_equal_units (build_loop sa sb path j (results @ [?r]))
              = non_equal_units (results @ [?r]) + edit_steps (drop j path)"
        by (rule "1.IH"(1)[OF True d _ j_def refl refl 1(5) jl c]) (use eq in simp)
      have b: "build_loop sa sb path i results = build_loop sa sb path j (results @ [?r])"
        using True eq by (subst build_loop.simps) (simp add: Let_def d j_def)
      have "edit_steps (drop i path) = edit_steps (drop (Suc i) path)"
        using True eq by (simp add: edit_steps_drop d)
      also have "\<dots> = edit_steps (drop j path)"
        unfolding j_def using True by (simp add: equal_block_end_edit_steps)
      finally have "edit_steps (drop i path) = edit_steps (drop j path)" .
      then show ?thesis using ih b by (simp add: non_equal_units_def op_units_def)
    next
      case ins
      let ?r = "\<lparr>type = INSERT, old_start = x1, old_count = 0, new_start = y1, new_count = 1,
                   old_lines = [], new_lines = py_slice sb y1 y2\<rparr>"
      have "chain sa sb (path ! i) [?r] (path ! Suc i)"
        using ins by (simp add: d prod_eq_iff)
      then have c: "chain sa sb s (results @ [?r]) (path ! Suc i)"
        using 1(7) chain_snoc by blast
      have ih: "chain sa sb s (build_loop sa sb path (Suc i) (results @ [?r])) (last path)
          \<and> non_equal_units (build_loop sa sb path (Suc i) (results @ [?r]))
              = non_equal_units (results @ [?r]) + edit_steps (drop (Suc i) path)"
        by (rule "1.IH"(2)[OF True d _ _ 1(5) True c]) (use ins in simp_all)
      have b: "build_loop sa sb path i results = build_loop sa sb path (Suc i) (results @ [?r])"
        using True ins by (subst build_loop.simps) (simp add: Let_def d)
      have "edit_steps (drop i path) = 1 + edit_steps (drop (Suc i) path)"
        using True ins by (simp add: edit_steps_drop d)
      then show ?thesis using ih b by (simp add: non_equal_units_def op_units_def)
    next
      case del
      let ?r = "\<lparr>type = DELETE, old_start = x1, old_count = 1, new_start = y1, new_count = 0,
                   old_lines = py_slice sa x1 x2, new_lines = []\<rparr>"
      have "chain sa sb (path ! i) [?r] (path ! Suc i)"
        using del by (simp add: d prod_eq_iff)
      then have c: "chain sa sb s (results @ [?r]) (path ! Suc i)"
        using 1(7) chain_snoc by blast
      have ih: "chain sa sb s (build_loop sa sb path (Suc i) (results @ [?r])) (last path)
          \<and> non_equal_units (build_loop sa sb path (Suc i) (results @ [?r]))
              = non_equal_units (results @ [?r]) + edit_steps (drop (Suc i) path)"
        by (rule "1.IH"(3)[OF True d _ _ _ 1(5) True c]) (use del in simp_all)
      have b: "build_loop sa sb path i results = build_loop sa sb path (Suc i) (results @ [?r])"
        using True del by (subst build_loop.simps) (simp add: Let_def d)
      have "edit_steps (drop i path) = 1 + edit_steps (drop (Suc i) path)"
        using True del by (simp add: edit_steps_drop d)
      then show ?thesis using ih b by (simp add: non_equal_units_def op_units_def)
    qed
  qed
qed

text \<open>Merging a Delete with the Insert that follows it keeps the chain and the units.\<close>

lemma chain_merge_pair:
  assumes "chain sa sb mid (r1 # r2 # rest) e" "type r1 = DELETE" "type r2 = INSERT"
  shows "chain sa sb mid
           (\<lparr>type = REPLACE, old_start = old_start r1, old_count = old_count r1,
              new_start = new_start r2, new_count = new_count r2,
              old_lines = old_lines r1, new_lines = new_lines r2\<rparr> # rest) e"
  using assms by auto

lemma merge_loop_chain_units:
  assumes "chain sa sb s merged mid" "chain sa sb mid (drop i results) e"
  shows "chain sa sb s (merge_loop results i merged) e
    \<and> non_equal_units (merge_loop results i merged)
        = non_equal_units merged + non_equal_units (drop i results)"
  using assms
proof (induction results i merged arbitrary: mid rule: merge_loop.induct)
  case (1 results i merged)
  show ?case
  proof (cases "i < length results")
    case False
    then show ?thesis using 1(3,4) by (subst (1 2) merge_loop.simps) (simp add: non_equal_units_def)
  next
    case True
    show ?thesis
    proof (cases "Suc i < length results \<and> type (results ! i) = DELETE \<and> type (results ! Suc i) = INSERT")
      case m: True
      let ?r = "\<lparr>type = REPLACE, old_start = old_start (results ! i),
                  old_count = old_count (results ! i),
                  new_start = new_start (results ! Suc i),
                  new_count = new_count (results ! Suc i),
                  old_lines = old_lines (results ! i),
                  new_lines = new_lines (results ! Suc i)\<rparr>"
      have dr: "drop i results = results ! i # results ! Suc i # drop (i + 2) results"
        using m by (metis Cons_nth_drop_Suc Suc_lessD add_2_eq_Suc')
      have "chain sa sb mid (?r # drop (i + 2) results) e"
        using chain_merge_pair[of sa sb mid "results ! i" "results ! Suc i" "drop (i + 2) results" e]
          1(4) m unfolding dr by blast
      then obtain mid' where c1: "chain sa sb mid [?r] mid'" and c2: "chain sa sb mid' (drop (i + 2) results) e"
        using chain_append[of sa sb mid "[?r]" "drop (i + 2) results" e] by auto
      have c3: "chain sa sb s (merged @ [?r]) mid'" using 1(3) c1 chain_snoc by blast
      have ih: "chain sa sb s (merge_loop results (i + 2) (merged @ [?r])) e
          \<and> non_equal_units (merge_loop results (i + 2) (merged @ [?r]))
              = non_equal_units (merged @ [?r]) + non_equal_units (drop (i + 2) results)"
        by (rule "1.IH"(1)[OF True m c3 c2])
      have b: "merge_loop results i merged = merge_loop results (i + 2) (merged @ [?r])"
        using True m by (subst merge_loop.simps) simp
      have "non_equal_units (drop i results) = op_units ?r + non_equal_units (drop (i + 2) results)"
        unfolding dr using m by (simp add: non_equal_units_def op_units_def)
      then show ?thesis using ih b by (simp add: non_equal_units_def)
    next
      case m: False
      have dr: "drop i results = results ! i # drop (i + 1) results"
        using True by (simp add: Cons_nth_drop_Suc)
      obtain mid' where c1: "chain sa sb mid [results ! i] mid'"
        and c2: "chain sa sb mid' (drop (i + 1) results) e"
        using chain_append[of sa sb mid "[results ! i]" "drop (i + 1) results" e] 1(4) dr by auto
      have c3: "chain sa sb s (merged @ [results ! i]) mid'" using 1(3) c1 chain_snoc by blast
      have ih: "chain sa sb s (merge_loop results (i + 1) (merged @ [results ! i])) e
          \<and> non_equal_units (merge_loop results (i + 1) (merged @ [results ! i]))
              = non_equal_units (merged @ [results ! i]) + non_equal_units (drop (i + 1) results)"
        by (rule "1.IH"(2)[OF True m c3 c2])
      have b: "merge_loop results i merged = merge_loop results (i + 1) (merged @ [results ! i])"
        using True m by (subst merge_loop.simps) auto
      show ?thesis using ih b unfolding dr by (simp add: non_equal_units_def)
    qed
  qed
qed

lemma fuzzy_loop_chain:
  assumes "chain sa sb s merged mid" "chain sa sb mid (drop i results) e"
  shows "chain sa sb s (fuzzy_loop opts results i merged) e"
  using assms
proof (induction opts results i merged arbitrary: mid rule: fuzzy_loop.induct)
  case (1 opts results i merged)
  show ?case
  proof (cases "i < length results")
    case False
    then show ?thesis using 1(3,4) by (subst fuzzy_loop.simps) simp
  next
    case True
    show ?thesis
    proof (cases "Suc i < length results \<and> type (results ! i) = DELETE \<and> type (results ! Suc i) = INSERT
            \<and> ratio_at_least_threshold opts
                  (py_join [CHR 0x0A] (old_lines (results ! i)))
                  (py_join [CHR 0x0A] (new_lines (results ! Suc i)))")
      case m: True
      let ?r = "\<lparr>type = REPLACE, old_start = old_start (results ! i),
                  old_count = old_count (results ! i),
                  new_start = new_start (results ! Suc i),
                  new_count = new_count (results ! Suc i),
                  old_lines = old_lines (results ! i),
                  new_lines = new_lines (results ! Suc i)\<rparr>"
      have dr: "drop i results = results ! i # results ! Suc i # drop (i + 2) results"
        using m by (metis Cons_nth_drop_Suc Suc_lessD add_2_eq_Suc')
      have "chain sa sb mid (?r # drop (i + 2) results) e"
        using chain_merge_pair[of sa sb mid "results ! i" "results ! Suc i" "drop (i + 2) results" e]
          1(4) m unfolding dr by blast
      then obtain mid' where c1: "chain sa sb mid [?r] mid'" and c2: "chain sa sb mid' (drop (i + 2) results) e"
        using chain_append[of sa sb mid "[?r]" "drop (i + 2) results" e] by auto
      have c3: "chain sa sb s (merged @ [?r]) mid'" using 1(3) c1 chain_snoc by blast
      have ih: "chain sa sb s (fuzzy_loop opts results (i + 2) (merged @ [?r])) e"
        by (rule "1.IH"(1)[OF True m c3 c2])
      have b: "fuzzy_loop opts results i merged = fuzzy_loop opts results (i + 2) (merged @ [?r])"
        using True m by (subst fuzzy_loop.simps) simp
      show ?thesis using ih b by simp
    next
      case m: False
      have dr: "drop i results = results ! i # drop (i + 1) results"
        using True by (simp add: Cons_nth_drop_Suc)
      obtain mid' where c1: "chain sa sb mid [results ! i] mid'"
        and c2: "chain sa sb mid' (drop (i + 1) results) e"
        using chain_append[of sa sb mid "[results ! i]" "drop (i + 1) results" e] 1(4) dr by auto
      have c3: "chain sa sb s (merged @ [results ! i]) mid'" using 1(3) c1 chain_snoc by blast
      have ih: "chain sa sb s (fuzzy_loop opts results (i + 1) (merged @ [results ! i])) e"
        by (rule "1.IH"(2)[OF True m c3 c2])
      have b: "fuzzy_loop opts results i merged = fuzzy_loop opts results (i + 1) (merged @ [results ! i])"
        using True m by (subst fuzzy_loop.simps) auto
      show ?thesis using ih b by simp
    qed
  qed
qed

lemma py_slice_nonneg:
  "0 \<le> i \<Longrightarrow> 0 \<le> j \<Longrightarrow> py_slice xs i j = take (nat j - nat i) (drop (nat i) xs)"
  by (auto simp: py_slice_def slice_bound_def Let_def min_def)

lemma py_slice_append:
  assumes "0 \<le> i" "i \<le> j" "j \<le> k"
  shows "py_slice xs i j @ py_slice xs j k = py_slice xs i k"
proof -
  have "take (nat j - nat i) (drop (nat i) xs) @ take (nat k - nat j) (drop (nat j) xs)
      = take (nat k - nat i) (drop (nat i) xs)"
  proof -
    have "nat k - nat i = (nat j - nat i) + (nat k - nat j)" using assms by simp
    moreover have "drop (nat j - nat i) (drop (nat i) xs) = drop (nat j) xs" using assms by simp
    ultimately show ?thesis by (simp add: take_add)
  qed
  then show ?thesis using assms by (simp add: py_slice_nonneg)
qed

lemma py_slice_all: "py_slice xs 0 (int (length xs)) = xs"
  by (simp add: py_slice_nonneg)

lemma chain_mono: "chain sa sb s ops e \<Longrightarrow> fst s \<le> fst e \<and> snd s \<le> snd e"
  by (induction ops arbitrary: s) (auto, fastforce+)

lemma chain_lines:
  assumes "chain sa sb s ops e" "0 \<le> fst s" "0 \<le> snd s"
  shows "concat (map old_lines ops) = py_slice sa (fst s) (fst e)
       \<and> concat (map new_lines ops) = py_slice sb (snd s) (snd e)"
  using assms
proof (induction ops arbitrary: s)
  case Nil
  then show ?case by simp
next
  case (Cons r rs)
  let ?s' = "(fst s + old_count r, snd s + new_count r)"
  from Cons.prems have c: "chain sa sb ?s' rs e" and r: "old_start r = fst s" "new_start r = snd s"
    "0 \<le> old_count r" "0 \<le> new_count r"
    "old_lines r = py_slice sa (fst s) (fst s + old_count r)"
    "new_lines r = py_slice sb (snd s) (snd s + new_count r)" by auto
  have ih: "concat (map old_lines rs) = py_slice sa (fst ?s') (fst e)
       \<and> concat (map new_lines rs) = py_slice sb (snd ?s') (snd e)"
    using Cons.IH[OF c] Cons.prems(2,3) r by simp
  have m: "fst ?s' \<le> fst e" "snd ?s' \<le> snd e" using chain_mono[OF c] by auto
  show ?case
    using ih r m Cons.prems(2,3)
      py_slice_append[of "fst s" "fst s + old_count r" "fst e" sa]
      py_slice_append[of "snd s" "snd s + new_count r" "snd e" sb]
    by simp
qed

lemma chain_contiguous:
  assumes "chain sa sb s ops e" "Suc i < length ops"
  shows "old_start (ops ! i) + old_count (ops ! i) = old_start (ops ! Suc i)
       \<and> new_start (ops ! i) + new_count (ops ! i) = new_start (ops ! Suc i)"
  using assms
proof (induction ops arbitrary: s i)
  case Nil
  then show ?case by simp
next
  case (Cons r rs)
  show ?case
  proof (cases i)
    case 0
    with Cons.prems obtain r' rs' where rs: "rs = r' # rs'" by (cases rs) auto
    with Cons.prems 0 show ?thesis by auto
  next
    case (Suc i')
    with Cons.prems Cons.IH[of "(fst s + old_count r, snd s + new_count r)" i'] show ?thesis by auto
  qed
qed

lemma chain_bounds:
  assumes "chain sa sb s ops e" "r \<in> set ops"
  shows "fst s \<le> old_start r \<and> snd s \<le> new_start r
       \<and> old_start r + old_count r \<le> fst e \<and> new_start r + new_count r \<le> snd e"
  using assms
proof (induction ops arbitrary: s)
  case Nil
  then show ?case by simp
next
  case (Cons q rs)
  let ?s' = "(fst s + old_count q, snd s + new_count q)"
  from Cons.prems have c: "chain sa sb ?s' rs e" by simp
  show ?case
  proof (cases "r = q")
    case True
    then show ?thesis using Cons.prems chain_mono[OF c] by auto
  next
    case False
    then have "r \<in> set rs" using Cons.prems by simp
    from Cons.IH[OF c this] Cons.prems show ?thesis by auto
  qed
qed

lemma chain_slices:
  assumes "chain sa sb s ops e" "r \<in> set ops"
  shows "old_lines r = py_slice sa (old_start r) (old_start r + old_count r)
       \<and> new_lines r = py_slice sb (new_start r) (new_start r + new_count r)"
  using assms by (induction ops arbitrary: s) auto

lemma build_diff_results_chain_units:
  assumes "path_ok path" "path \<noteq> []"
  shows "chain sa sb (hd path) (build_diff_results sa sb path) (last path)
       \<and> non_equal_units (build_diff_results sa sb path) = edit_steps path"
proof -
  have p0: "0 < length path" "path ! 0 = hd path" using assms(2) by (auto simp: hd_conv_nth)
  have c0: "chain sa sb (hd path) [] (path ! 0)" using p0 by simp
  from build_loop_chain_units[OF assms(1) p0(1) c0]
  have b: "chain sa sb (hd path) (build_loop sa sb path 0 []) (last path)"
    "non_equal_units (build_loop sa sb path 0 []) = edit_steps path"
    by (simp_all add: non_equal_units_def)
  have c1: "chain sa sb (hd path) [] (hd path)" by simp
  from merge_loop_chain_units[OF c1, of 0 "build_loop sa sb path 0 []" "last path"] b
  show ?thesis by (simp add: build_diff_results_def merge_replace_operations_def non_equal_units_def)
qed

subsection \<open>The edit graph\<close>

lemma reach_nonneg: "reach pa pb e x y \<Longrightarrow> 0 \<le> e \<and> 0 \<le> x \<and> 0 \<le> y"
  by (induction rule: reach.induct) auto

lemma reach_diagonal: "reach pa pb e x y \<Longrightarrow> - e \<le> x - y \<and> x - y \<le> e \<and> even (e - (x - y))"
  by (induction rule: reach.induct) auto

lemma reach_rights: "reach pa pb e x y \<Longrightarrow> reach pa pb (e + int c) (x + int c) y"
proof (induction c)
  case 0
  then show ?case by simp
next
  case (Suc c)
  from reach_right[OF Suc.IH[OF Suc.prems]] show ?case by (simp add: algebra_simps)
qed

lemma reach_downs: "reach pa pb e x y \<Longrightarrow> reach pa pb (e + int c) x (y + int c)"
proof (induction c)
  case 0
  then show ?case by simp
next
  case (Suc c)
  from reach_down[OF Suc.IH[OF Suc.prems]] show ?case by (simp add: algebra_simps)
qed

text \<open>The trivial script: delete everything, insert everything.\<close>

lemma reach_trivial: "reach pa pb (int (length pa) + int (length pb)) (int (length pa)) (int (length pb))"
  using reach_downs[OF reach_rights[OF reach_start, where c = "length pa"], where c = "length pb"]
  by simp

lemma reach_eq:
  "reach pa pb e x y \<Longrightarrow> e' = e \<Longrightarrow> x' = x \<Longrightarrow> y' = y \<Longrightarrow> reach pa pb e' x' y'"
  by simp

text \<open>A point outside the grid costs more than its projection onto the grid.\<close>

lemma reach_clamp:
  "reach pa pb e x y \<Longrightarrow>
   reach pa pb (e - max 0 (x - int (length pa)) - max 0 (y - int (length pb)))
     (min x (int (length pa))) (min y (int (length pb)))"
proof (induction rule: reach.induct)
  case reach_start
  show ?case by (rule reach_eq[OF reach.reach_start]) auto
next
  case (reach_diag e x y)
  show ?case by (rule reach_eq[OF reach.reach_diag[OF reach_diag.hyps]]) (use reach_diag.hyps in auto)
next
  case (reach_right e x y)
  show ?case
  proof (cases "x < int (length pa)")
    case True
    show ?thesis
      by (rule reach_eq[OF reach.reach_right[OF reach_right.IH]]) (use True in auto)
  next
    case False
    show ?thesis
      by (rule reach_eq[OF reach_right.IH]) (use False in auto)
  qed
next
  case (reach_down e x y)
  show ?case
  proof (cases "y < int (length pb)")
    case True
    show ?thesis
      by (rule reach_eq[OF reach.reach_down[OF reach_down.IH]]) (use True in auto)
  next
    case False
    show ?thesis
      by (rule reach_eq[OF reach_down.IH]) (use False in auto)
  qed
qed

lemma reach_last_edit:
  "reach pa pb e x y \<Longrightarrow>
   \<exists>x0. matches pa pb (x - y) x0 x
      \<and> ((e = 0 \<and> x0 = 0 \<and> x = y) \<or> reach pa pb (e - 1) (x0 - 1) (x0 - (x - y))
          \<or> reach pa pb (e - 1) x0 (x0 - (x - y) - 1))"
proof (induction rule: reach.induct)
  case reach_start
  show ?case by (rule exI[of _ 0]) (auto simp: matches_def)
next
  case (reach_diag e x y)
  then obtain x0 where m: "matches pa pb (x - y) x0 x"
    and c: "(e = 0 \<and> x0 = 0 \<and> x = y) \<or> reach pa pb (e - 1) (x0 - 1) (x0 - (x - y))
          \<or> reach pa pb (e - 1) x0 (x0 - (x - y) - 1)" by blast
  have "matches pa pb (x + 1 - (y + 1)) x0 (x + 1)"
    unfolding matches_def
  proof (intro conjI allI impI)
    show "x0 \<le> x + 1" using m by (simp add: matches_def)
  next
    fix t assume t: "x0 \<le> t \<and> t < x + 1"
    show "t < int (length pa)" using t m reach_diag.hyps by (cases "t = x") (auto simp: matches_def)
    show "t - (x + 1 - (y + 1)) < int (length pb)"
      using t m reach_diag.hyps by (cases "t = x") (auto simp: matches_def)
    show "pa ! nat t = pb ! nat (t - (x + 1 - (y + 1)))"
      using t m reach_diag.hyps by (cases "t = x") (auto simp: matches_def)
  qed
  with c show ?case by (intro exI[of _ x0]) auto
next
  case (reach_right e x y)
  show ?case by (rule exI[of _ "x + 1"]) (use reach_right.hyps in \<open>auto simp: matches_def\<close>)
next
  case (reach_down e x y)
  show ?case by (rule exI[of _ x]) (use reach_down.hyps in \<open>auto simp: matches_def\<close>)
qed

subsection \<open>One diagonal of the search\<close>

lemma py_index_in_range:
  "0 \<le> i \<Longrightarrow> i < int (length xs) \<Longrightarrow> py_index xs i = Inr (xs ! nat i)"
  by (simp add: py_index_def)

lemma follow_diagonal_props:
  assumes "0 \<le> x" "0 \<le> y"
  shows "\<exists>x'. follow_diagonal pa pb x y = Inr x' \<and> matches pa pb (x - y) x x'
     \<and> \<not> (x' < int (length pa) \<and> x' - (x - y) < int (length pb)
           \<and> pa ! nat x' = pb ! nat (x' - (x - y)))"
  using assms
proof (induction pa pb x y rule: follow_diagonal.induct)
  case (1 pa pb x y)
  show ?case
  proof (cases "x < int (length pa) \<and> y < int (length pb) \<and> pa ! nat x = pb ! nat y")
    case True
    then have le: "lines_equal pa pb x y = Inr True"
      using 1(2,3) by (simp add: lines_equal_def py_index_in_range)
    from True have c: "x < int (length pa) \<and> y < int (length pb)" by simp
    have "\<exists>x'. follow_diagonal pa pb (x + 1) (y + 1) = Inr x' \<and> matches pa pb (x + 1 - (y + 1)) (x + 1) x'
     \<and> \<not> (x' < int (length pa) \<and> x' - (x + 1 - (y + 1)) < int (length pb)
           \<and> pa ! nat x' = pb ! nat (x' - (x + 1 - (y + 1))))"
      by (rule "1.IH"[OF c le]) (use 1(2,3) in auto)
    then obtain x' where f: "follow_diagonal pa pb (x + 1) (y + 1) = Inr x'"
      and m: "matches pa pb (x - y) (x + 1) x'"
      and s: "\<not> (x' < int (length pa) \<and> x' - (x - y) < int (length pb)
           \<and> pa ! nat x' = pb ! nat (x' - (x - y)))" by auto
    have "follow_diagonal pa pb x y = Inr x'"
      using True le f by (subst follow_diagonal.simps) simp
    moreover have "matches pa pb (x - y) x x'"
      unfolding matches_def
    proof (intro conjI allI impI)
      show "x \<le> x'" using m by (simp add: matches_def)
    next
      fix t assume t: "x \<le> t \<and> t < x'"
      show "t < int (length pa)" using t m True by (cases "t = x") (auto simp: matches_def)
      show "t - (x - y) < int (length pb)" using t m True by (cases "t = x") (auto simp: matches_def)
      show "pa ! nat t = pb ! nat (t - (x - y))" using t m True by (cases "t = x") (auto simp: matches_def)
    qed
    ultimately show ?thesis using s by blast
  next
    case False
    have "follow_diagonal pa pb x y = Inr x"
    proof (cases "x < int (length pa) \<and> y < int (length pb)")
      case c: True
      then have "lines_equal pa pb x y = Inr False"
        using False 1(2,3) by (simp add: lines_equal_def py_index_in_range)
      then show ?thesis using c by (subst follow_diagonal.simps) simp
    next
      case c: False
      then show ?thesis by (subst follow_diagonal.simps) auto
    qed
    moreover have "matches pa pb (x - y) x x" by (auto simp: matches_def)
    ultimately show ?thesis using False by auto
  qed
qed

lemma matches_reach:
  assumes "reach pa pb e x y" "matches pa pb (x - y) x x'"
  shows "reach pa pb e x' (x' - (x - y))"
proof -
  have "reach pa pb e (x + int c) (y + int c)" if "x + int c \<le> x'" for c
    using that
  proof (induction c)
    case 0
    then show ?case using assms(1) by simp
  next
    case (Suc c)
    then have r: "reach pa pb e (x + int c) (y + int c)" by simp
    have t: "x \<le> x + int c \<and> x + int c < x'" using Suc.prems by simp
    from assms(2) t have "x + int c < int (length pa)" "x + int c - (x - y) < int (length pb)"
      "pa ! nat (x + int c) = pb ! nat (x + int c - (x - y))"
      unfolding matches_def by blast+
    then have "y + int c < int (length pb)" "pa ! nat (x + int c) = pb ! nat (y + int c)"
      by (simp_all add: algebra_simps)
    from reach_diag[OF r \<open>x + int c < int (length pa)\<close> this]
    show ?case by (simp add: algebra_simps)
  qed
  from this[of "nat (x' - x)"] assms(2) show ?thesis
    by (simp add: matches_def algebra_simps)
qed

lemma matches_maximal:
  assumes "matches pa pb k x x'"
    and "\<not> (x' < int (length pa) \<and> x' - k < int (length pb) \<and> pa ! nat x' = pb ! nat (x' - k))"
    and "matches pa pb k x0 x''" "x0 \<le> x"
  shows "x'' \<le> x'"
proof (rule ccontr)
  assume "\<not> x'' \<le> x'"
  then have "x0 \<le> x' \<and> x' < x''" using assms(1,4) by (simp add: matches_def)
  with assms(3) have "x' < int (length pa) \<and> x' - k < int (length pb) \<and> pa ! nat x' = pb ! nat (x' - k)"
    unfolding matches_def by blast
  with assms(2) show False by simp
qed

lemma entry_reach_and_bound:
  assumes d: "0 \<le> d" and rd: "ready pa pb d v" and k: "- d \<le> k" "k \<le> d" "even (d - k)"
  shows "reach pa pb d (entry v d k) (entry v d k - k)"
    and "\<And>xs. (d = 0 \<and> xs = 0) \<or> reach pa pb (d - 1) (xs - 1) (xs - k)
                \<or> reach pa pb (d - 1) xs (xs - k - 1) \<Longrightarrow> xs \<le> entry v d k"
proof -
  have both: "reach pa pb d (entry v d k) (entry v d k - k)
    \<and> (\<forall>xs. (d = 0 \<and> xs = 0) \<or> reach pa pb (d - 1) (xs - 1) (xs - k)
                \<or> reach pa pb (d - 1) xs (xs - k - 1) \<longrightarrow> xs \<le> entry v d k)"
  proof (cases "d = 0")
    case True
    then have k0: "k = 0" using k by simp
    have e: "entry v d k = 0" using True k0 rd by (simp add: entry_def move_down_def ready_def dict_get_def)
    have "\<not> reach pa pb (- 1) a b" for a b using reach_nonneg[of pa pb "- 1" a b] by auto
    then show ?thesis using True k0 e reach_start[of pa pb] by auto
  next
    case False
    then have d1: "1 \<le> d" using d by simp
    from rd False have rdn: "round_done pa pb (d - 1) v" by (simp add: ready_def)
    have up: "\<exists>x. v (k + 1) = Some x \<and> furthest pa pb (d - 1) (k + 1) x" if "k \<noteq> d"
    proof -
      from that k have "k + 1 \<le> d - 1" by presburger
      with k rdn show ?thesis unfolding round_done_def by (simp add: algebra_simps)
    qed
    have lo: "\<exists>x. v (k - 1) = Some x \<and> furthest pa pb (d - 1) (k - 1) x" if "k \<noteq> - d"
    proof -
      from that k have "- (d - 1) \<le> k - 1" by presburger
      with k rdn show ?thesis unfolding round_done_def by (simp add: algebra_simps)
    qed
    have no_up: "\<not> reach pa pb (d - 1) a (a - k - 1)" if "k = d" for a
      using reach_diagonal[of pa pb "d - 1" a "a - k - 1"] that by auto
    have no_lo: "\<not> reach pa pb (d - 1) (a - 1) (a - k)" if "k = - d" for a
      using reach_diagonal[of pa pb "d - 1" "a - 1" "a - k"] that by auto
    show ?thesis
    proof (cases "k = - d")
      case True
      then have kd: "k \<noteq> d" using d1 by simp
      from up[OF kd] obtain x where x: "v (k + 1) = Some x" "furthest pa pb (d - 1) (k + 1) x" by blast
      have e: "entry v d k = x" using True x by (simp add: entry_def move_down_def dict_get_def)
      have "reach pa pb (d - 1) x (x - (k + 1))" using x by (simp add: furthest_def)
      from reach_down[OF this] have r: "reach pa pb d x (x - k)" by (simp add: algebra_simps)
      have "xs \<le> x" if "reach pa pb (d - 1) xs (xs - k - 1)" for xs
        using x(2) that unfolding furthest_def by (simp add: algebra_simps)
      then show ?thesis using e r no_lo[OF True] False by auto
    next
      case nd: False
      from lo[OF nd] obtain xl where xl: "v (k - 1) = Some xl" "furthest pa pb (d - 1) (k - 1) xl" by blast
      have rl: "reach pa pb d (xl + 1) (xl + 1 - k)"
      proof -
        have "reach pa pb (d - 1) xl (xl - (k - 1))" using xl by (simp add: furthest_def)
        from reach_right[OF this] show ?thesis by (simp add: algebra_simps)
      qed
      have bl: "xs \<le> xl + 1" if "reach pa pb (d - 1) (xs - 1) (xs - k)" for xs
      proof -
        have "reach pa pb (d - 1) (xs - 1) (xs - 1 - (k - 1))" using that by (simp add: algebra_simps)
        with xl(2) have "xs - 1 \<le> xl" unfolding furthest_def by blast
        then show ?thesis by simp
      qed
      show ?thesis
      proof (cases "k = d")
        case True
        have e: "entry v d k = xl + 1" using True nd xl by (simp add: entry_def move_down_def dict_get_def)
        show ?thesis using e rl bl no_up[OF True] False by auto
      next
        case ku: False
        from up[OF ku] obtain xu where xu: "v (k + 1) = Some xu" "furthest pa pb (d - 1) (k + 1) xu" by blast
        have ru: "reach pa pb d xu (xu - k)"
        proof -
          have "reach pa pb (d - 1) xu (xu - (k + 1))" using xu by (simp add: furthest_def)
          from reach_down[OF this] show ?thesis by (simp add: algebra_simps)
        qed
        have bu: "xs \<le> xu" if "reach pa pb (d - 1) xs (xs - k - 1)" for xs
          using xu(2) that unfolding furthest_def by (simp add: algebra_simps)
        have e: "entry v d k = (if xl < xu then xu else xl + 1)"
          using nd ku xl xu by (simp add: entry_def move_down_def dict_get_def)
        show ?thesis
        proof (cases "xl < xu")
          case True
          then show ?thesis using e ru bu bl False by fastforce
        next
          case lt: False
          then show ?thesis using e rl bu bl False by fastforce
        qed
      qed
    qed
  qed
  from both show "reach pa pb d (entry v d k) (entry v d k - k)" by blast
  from both show "\<And>xs. (d = 0 \<and> xs = 0) \<or> reach pa pb (d - 1) (xs - 1) (xs - k)
                \<or> reach pa pb (d - 1) xs (xs - k - 1) \<Longrightarrow> xs \<le> entry v d k" by blast
qed

lemma visit_diagonal:
  assumes d: "0 \<le> d" and rd: "ready pa pb d v" and k: "- d \<le> k" "k \<le> d" "even (d - k)"
  shows "\<exists>x. follow_diagonal pa pb (entry v d k) (entry v d k - k) = Inr x \<and> furthest pa pb d k x"
proof -
  let ?x0 = "entry v d k"
  note en = entry_reach_and_bound[OF d rd k]
  have nn: "0 \<le> ?x0" "0 \<le> ?x0 - k" using reach_nonneg[OF en(1)] by auto
  from follow_diagonal_props[OF nn, of pa pb] obtain x where
    f: "follow_diagonal pa pb ?x0 (?x0 - k) = Inr x" and m: "matches pa pb k ?x0 x"
    and s: "\<not> (x < int (length pa) \<and> x - k < int (length pb) \<and> pa ! nat x = pb ! nat (x - k))"
    by auto
  have r: "reach pa pb d x (x - k)" using matches_reach[OF en(1)] m by simp
  have "x'' \<le> x" if r'': "reach pa pb d x'' (x'' - k)" for x''
  proof -
    from reach_last_edit[OF r''] obtain xs where
      ms: "matches pa pb k xs x''"
      and c: "(d = 0 \<and> xs = 0) \<or> reach pa pb (d - 1) (xs - 1) (xs - k)
          \<or> reach pa pb (d - 1) xs (xs - k - 1)" by auto
    from en(2)[OF c] have "xs \<le> ?x0" .
    from matches_maximal[OF m s ms this] show ?thesis .
  qed
  with r f show ?thesis unfolding furthest_def by blast
qed

lemma k_loop_invariant:
  assumes "0 \<le> d" "ready pa pb d v"
    and "\<forall>e. e < d \<longrightarrow> \<not> reach pa pb e (int (length pa)) (int (length pb))"
    and "- d \<le> k" "k \<le> d + 2" "even (d - k)"
    and "\<forall>j. - d \<le> j \<and> j < k \<and> even (d - j) \<longrightarrow>
           (\<exists>x. v j = Some x \<and> furthest pa pb d j x
              \<and> \<not> (int (length pa) \<le> x \<and> int (length pb) \<le> x - j))"
  shows "(k_loop pa pb d k v = Inr Reached \<and> reach pa pb d (int (length pa)) (int (length pb)))
       \<or> (\<exists>v'. k_loop pa pb d k v = Inr (Exhausted v') \<and> round_done pa pb d v'
             \<and> \<not> reach pa pb d (int (length pa)) (int (length pb)))"
  using assms
proof (induction pa pb d k v rule: k_loop.induct)
  case (1 pa pb d k v)
  let ?n = "int (length pa)" and ?m = "int (length pb)"
  note d = "1.prems"(1) and rd = "1.prems"(2) and mn = "1.prems"(3)
    and k = "1.prems"(4,5,6) and pr = "1.prems"(7)
  show ?case
  proof (cases "k < d + 1")
    case False
    with k have kd: "k = d + 2" by presburger
    have l: "k_loop pa pb d k v = Inr (Exhausted v)"
      using False by (subst k_loop.simps) simp
    have rdone: "round_done pa pb d v"
      unfolding round_done_def using pr kd by auto
    have "\<not> reach pa pb d ?n ?m"
    proof
      assume r: "reach pa pb d ?n ?m"
      from reach_diagonal[OF r] kd
      have "- d \<le> ?n - ?m \<and> ?n - ?m < k \<and> even (d - (?n - ?m))" by simp
      with pr obtain x where
        x: "furthest pa pb d (?n - ?m) x" "\<not> (?n \<le> x \<and> ?m \<le> x - (?n - ?m))" by blast
      from x(1) r have "?n \<le> x" unfolding furthest_def by simp
      with x(2) show False by simp
    qed
    with l rdone show ?thesis by blast
  next
    case True
    then have kle: "k \<le> d" by simp
    define x0 where "x0 = (if move_down v d k then dict_get v (k + 1) 0 else dict_get v (k - 1) 0 + 1)"
    have x0e: "x0 = entry v d k" by (simp add: x0_def entry_def)
    from visit_diagonal[OF d rd k(1) kle k(3)] obtain x where
      f: "follow_diagonal pa pb x0 (x0 - k) = Inr x" and fu: "furthest pa pb d k x"
      unfolding x0e by blast
    show ?thesis
    proof (cases "x \<ge> ?n \<and> x - k \<ge> ?m")
      case t: True
      have l: "k_loop pa pb d k v = Inr Reached"
        using True f t by (subst k_loop.simps) (simp add: Let_def x0_def)
      from fu have r: "reach pa pb d x (x - k)" by (simp add: furthest_def)
      have c: "reach pa pb (d - (x - ?n) - (x - k - ?m)) ?n ?m"
        by (rule reach_eq[OF reach_clamp[OF r]]) (use t in auto)
      with mn have "\<not> d - (x - ?n) - (x - k - ?m) < d" by blast
      with t have "x = ?n" "x - k = ?m" by auto
      with r l show ?thesis by simp
    next
      case t: False
      let ?v' = "v(k \<mapsto> x)"
      have l: "k_loop pa pb d k v = k_loop pa pb d (k + 2) ?v'"
        using True f t by (subst k_loop.simps) (auto simp: Let_def x0_def)
      have rd': "ready pa pb d ?v'"
      proof (cases "d = 0")
        case True
        with k kle have "k = 0" by simp
        with rd True show ?thesis by (simp add: ready_def)
      next
        case False
        with rd have "round_done pa pb (d - 1) v" by (simp add: ready_def)
        moreover have "j \<noteq> k" if "even (d - 1 - j)" for j using that k(3) by presburger
        ultimately show ?thesis using False unfolding ready_def round_done_def by auto
      qed
      have pr': "\<forall>j. - d \<le> j \<and> j < k + 2 \<and> even (d - j) \<longrightarrow>
           (\<exists>xa. ?v' j = Some xa \<and> furthest pa pb d j xa \<and> \<not> (?n \<le> xa \<and> ?m \<le> xa - j))"
      proof (intro allI impI)
        fix j assume j: "- d \<le> j \<and> j < k + 2 \<and> even (d - j)"
        show "\<exists>xa. ?v' j = Some xa \<and> furthest pa pb d j xa \<and> \<not> (?n \<le> xa \<and> ?m \<le> xa - j)"
        proof (cases "j = k")
          case True
          then show ?thesis using fu t by auto
        next
          case False
          with j k(3) have "j < k" by presburger
          with j pr False show ?thesis by auto
        qed
      qed
      have "(k_loop pa pb d (k + 2) ?v' = Inr Reached \<and> reach pa pb d ?n ?m)
       \<or> (\<exists>v'. k_loop pa pb d (k + 2) ?v' = Inr (Exhausted v') \<and> round_done pa pb d v'
             \<and> \<not> reach pa pb d ?n ?m)"
        by (rule "1.IH"[OF True x0_def refl f refl refl _ d rd' mn _ _ _ pr'])
           (use t k kle in auto)
      with l show ?thesis by simp
    qed
  qed
qed

subsection \<open>The search over all distances\<close>

lemma d_loop_invariant:
  assumes "0 \<le> d" "ready pa pb d v"
    and "\<forall>e. e < d \<longrightarrow> \<not> reach pa pb e (int (length pa)) (int (length pb))"
    and "length trace = nat d" "trace_ok pa pb trace"
  shows "\<exists>trace' d'. d_loop pa pb d trace v = Inr (Found trace' d')
       \<and> d' \<le> int (length pa) + int (length pb) \<and> shortest pa pb d'
       \<and> length trace' = nat d' + 1 \<and> trace_ok pa pb trace'"
  using assms
proof (induction pa pb d trace v rule: d_loop.induct)
  case (1 pa pb d trace v)
  let ?n = "int (length pa)" and ?m = "int (length pb)"
  note d = "1.prems"(1) and rd = "1.prems"(2) and mn = "1.prems"(3)
    and len = "1.prems"(4) and tr = "1.prems"(5)
  have dle: "d < ?n + ?m + 1"
  proof (rule ccontr)
    assume "\<not> d < ?n + ?m + 1"
    then have "?n + ?m < d" by simp
    with mn reach_trivial[of pa pb] show False by blast
  qed
  let ?trace' = "trace @ [v]"
  have len': "length ?trace' = nat d + 1" using len by simp
  have tr': "trace_ok pa pb ?trace'"
    unfolding trace_ok_def
  proof (intro allI impI)
    fix e assume e: "e < length ?trace'"
    show "ready pa pb (int e) (?trace' ! e)"
    proof (cases "e < length trace")
      case True
      then show ?thesis using tr by (simp add: trace_ok_def nth_append)
    next
      case False
      with e len have "e = nat d" by simp
      then show ?thesis using rd d len by (simp add: nth_append)
    qed
  qed
  have pr: "\<forall>j. - d \<le> j \<and> j < - d \<and> even (d - j) \<longrightarrow>
           (\<exists>x. v j = Some x \<and> furthest pa pb d j x \<and> \<not> (?n \<le> x \<and> ?m \<le> x - j))" by simp
  have kk: "- d \<le> - d" "- d \<le> d + 2" "even (d - - d)" using d by simp_all
  from k_loop_invariant[OF d rd mn kk pr]
  consider (reached) "k_loop pa pb d (- d) v = Inr Reached" "reach pa pb d ?n ?m"
    | (exhausted) v' where "k_loop pa pb d (- d) v = Inr (Exhausted v')" "round_done pa pb d v'"
        "\<not> reach pa pb d ?n ?m"
    by blast
  then show ?case
  proof cases
    case reached
    have "d_loop pa pb d trace v = Inr (Found ?trace' d)"
      using dle reached(1) by (subst d_loop.simps) (simp add: Let_def)
    moreover have "shortest pa pb d" using reached(2) mn by (simp add: shortest_def)
    ultimately show ?thesis using len' tr' dle by auto
  next
    case exhausted
    have l: "d_loop pa pb d trace v = d_loop pa pb (d + 1) ?trace' v'"
      using dle exhausted(1) by (subst d_loop.simps) (simp add: Let_def)
    have rd': "ready pa pb (d + 1) v'" using exhausted(2) d by (simp add: ready_def)
    have mn': "\<forall>e. e < d + 1 \<longrightarrow> \<not> reach pa pb e ?n ?m"
    proof (intro allI impI)
      fix e :: int assume "e < d + 1"
      then have "e < d \<or> e = d" by auto
      then show "\<not> reach pa pb e ?n ?m" using mn exhausted(3) by auto
    qed
    have len'': "length ?trace' = nat (d + 1)" using len d by simp
    have "\<exists>trace'' d'. d_loop pa pb (d + 1) ?trace' v' = Inr (Found trace'' d')
       \<and> d' \<le> ?n + ?m \<and> shortest pa pb d'
       \<and> length trace'' = nat d' + 1 \<and> trace_ok pa pb trace''"
      by (rule "1.IH"[OF dle refl exhausted(1) refl _ rd' mn' len'' tr']) (use d in simp)
    with l show ?thesis by simp
  qed
qed

lemma search_found:
  "\<exists>trace d. search pa pb = Inr (Found trace d)
       \<and> d \<le> int (length pa) + int (length pb) \<and> shortest pa pb d
       \<and> length trace = nat d + 1 \<and> trace_ok pa pb trace"
proof -
  have "ready pa pb 0 [1 \<mapsto> 0]" by (simp add: ready_def)
  moreover have "\<forall>e. e < 0 \<longrightarrow> \<not> reach pa pb e (int (length pa)) (int (length pb))"
    using reach_nonneg by fastforce
  moreover have "trace_ok pa pb []" by (simp add: trace_ok_def)
  ultimately show ?thesis
    unfolding search_def using d_loop_invariant[of 0 pa pb "[1 \<mapsto> 0]" "[]"] by simp
qed

subsection \<open>Backtracking\<close>

lemma path_ok_snoc_rev:
  "path \<noteq> [] \<Longrightarrow> path_ok (rev (path @ [q])) \<longleftrightarrow> step_ok q (last path) \<and> path_ok (rev path)"
  by (cases path rule: rev_cases) auto

lemma edit_steps_snoc_rev:
  "path \<noteq> [] \<Longrightarrow> edit_steps (rev (path @ [q]))
     = (if fst (last path) > fst q \<and> snd (last path) > snd q then 0 else 1) + edit_steps (rev path)"
  by (cases path rule: rev_cases) auto

lemma walk_back_result:
  assumes "sx \<le> x" "y - x = sy - sx"
    and "(sx = prev_x \<and> sy = prev_y + 1) \<or> (sx = prev_x + 1 \<and> sy = prev_y)"
    and "path \<noteq> []" "last path = (x, y)" "path_ok (rev path)"
  shows "\<exists>path'. walk_back prev_x prev_y x y path = (sx, sy, path')
       \<and> path' \<noteq> [] \<and> last path' = (sx, sy) \<and> path_ok (rev path')
       \<and> edit_steps (rev path') = edit_steps (rev path) \<and> hd path' = hd path"
  using assms
proof (induction prev_x prev_y x y path rule: walk_back.induct)
  case (1 prev_x prev_y x y path)
  show ?case
  proof (cases "x > prev_x \<and> y > prev_y")
    case True
    then have xs: "sx < x" using "1.prems"(2,3) by auto
    let ?path' = "path @ [(x - 1, y - 1)]"
    have a: "sx \<le> x - 1" "y - 1 - (x - 1) = sy - sx" using xs "1.prems"(2) by auto
    have b: "?path' \<noteq> []" "last ?path' = (x - 1, y - 1)" by auto
    have c: "path_ok (rev ?path')"
      using path_ok_snoc_rev[OF "1.prems"(4), of "(x - 1, y - 1)"] "1.prems"(5,6)
      by (simp add: step_ok_def)
    have e: "edit_steps (rev ?path') = edit_steps (rev path)"
      using edit_steps_snoc_rev[OF "1.prems"(4), of "(x - 1, y - 1)"] "1.prems"(5) by simp
    have h: "hd ?path' = hd path" using "1.prems"(4) by simp
    from "1.IH"[OF True a "1.prems"(3) b c]
    obtain path'' where "walk_back prev_x prev_y (x - 1) (y - 1) ?path' = (sx, sy, path'')"
       "path'' \<noteq> []" "last path'' = (sx, sy)" "path_ok (rev path'')"
       "edit_steps (rev path'') = edit_steps (rev ?path')" "hd path'' = hd ?path'" by blast
    moreover have "walk_back prev_x prev_y x y path = walk_back prev_x prev_y (x - 1) (y - 1) ?path'"
      using True by (subst walk_back.simps) simp
    ultimately show ?thesis using e h by auto
  next
    case False
    then have "x = sx" "y = sy" using "1.prems"(1,2,3) by auto
    moreover have "walk_back prev_x prev_y x y path = (x, y, path)"
      using False by (subst walk_back.simps) auto
    ultimately show ?thesis using "1.prems"(4,5,6) by simp
  qed
qed

lemma backtrack_loop_invariant:
  assumes "trace_ok pa pb trace" "0 \<le> depth" "nat depth < length trace"
    and "furthest pa pb depth (x - y) x"
    and "path \<noteq> []" "last path = (x, y)" "path_ok (rev path)"
  shows "\<exists>path' p. backtrack_loop trace depth x y path = Inr path'
       \<and> path' \<noteq> [] \<and> last path' = (p, p) \<and> 0 \<le> p \<and> path_ok (rev path')
       \<and> edit_steps (rev path') = edit_steps (rev path) + depth \<and> hd path' = hd path"
  using assms
proof (induction trace depth x y path rule: backtrack_loop.induct)
  case (1 trace depth x y path)
  note tr = "1.prems"(1) and dp = "1.prems"(2,3) and fu = "1.prems"(4) and pth = "1.prems"(5,6,7)
  from fu have r: "reach pa pb depth x y" by (simp add: furthest_def)
  show ?case
  proof (cases "depth > 0")
    case False
    with dp have d0: "depth = 0" by simp
    from reach_diagonal[OF r] reach_nonneg[OF r] d0 have "x = y" "0 \<le> x" by auto
    moreover have "backtrack_loop trace depth x y path = Inr path"
      using False by (subst backtrack_loop.simps) simp
    ultimately show ?thesis using pth d0 by auto
  next
    case True
    define v where "v = trace ! nat depth"
    have pi: "py_index trace depth = Inr v"
      using dp True by (simp add: py_index_in_range v_def)
    have rd: "ready pa pb depth v"
      using tr dp unfolding trace_ok_def v_def by (metis int_nat_eq)
    then have rdn: "round_done pa pb (depth - 1) v" using True by (simp add: ready_def)
    define k where "k = x - y"
    from reach_diagonal[OF r] have kr: "- depth \<le> k" "k \<le> depth" "even (depth - k)"
      by (simp_all add: k_def)
    define prev_k where "prev_k = (if move_down v depth k then k + 1 else k - 1)"
    have pk: "- (depth - 1) \<le> prev_k \<and> prev_k \<le> depth - 1 \<and> even (depth - 1 - prev_k)"
    proof (cases "move_down v depth k")
      case md: True
      then have "k \<noteq> depth" using True by (auto simp: move_down_def)
      with kr have "k + 1 \<le> depth - 1" by presburger
      then show ?thesis using md kr by (simp add: prev_k_def)
    next
      case md: False
      then have "k \<noteq> - depth" by (auto simp: move_down_def)
      with kr have "- (depth - 1) \<le> k - 1" by presburger
      then show ?thesis using md kr by (simp add: prev_k_def)
    qed
    with rdn obtain prev_x where px: "v prev_k = Some prev_x" "furthest pa pb (depth - 1) prev_k prev_x"
      unfolding round_done_def by blast
    have di: "dict_item v prev_k = Inr prev_x" using px by (simp add: dict_item_def)
    define prev_y where "prev_y = prev_x - prev_k"
    define sx where "sx = entry v depth k"
    define sy where "sy = sx - k"
    have en: "reach pa pb depth sx sy"
      using entry_reach_and_bound(1)[OF dp(1) rd kr] by (simp add: sx_def sy_def)
    have sxx: "sx \<le> x" using fu en unfolding furthest_def sy_def k_def by blast
    have diag: "y - x = sy - sx" by (simp add: sy_def k_def)
    have st: "(move_down v depth k \<and> sx = prev_x \<and> sy = prev_y + 1)
            \<or> (\<not> move_down v depth k \<and> sx = prev_x + 1 \<and> sy = prev_y)"
      using px(1) by (auto simp: sx_def sy_def entry_def prev_k_def prev_y_def dict_get_def)
    then have st': "(sx = prev_x \<and> sy = prev_y + 1) \<or> (sx = prev_x + 1 \<and> sy = prev_y)" by blast
    from walk_back_result[OF sxx diag st' pth]
    obtain path' where wb: "walk_back prev_x prev_y x y path = (sx, sy, path')"
       and p': "path' \<noteq> []" "last path' = (sx, sy)" "path_ok (rev path')"
       "edit_steps (rev path') = edit_steps (rev path)" "hd path' = hd path" by blast
    let ?path'' = "path' @ [(prev_x, prev_y)]"
    have q1: "?path'' \<noteq> []" "last ?path'' = (prev_x, prev_y)" by auto
    have q2: "path_ok (rev ?path'')"
      using path_ok_snoc_rev[OF p'(1), of "(prev_x, prev_y)"] p'(2,3) st'
      by (auto simp: step_ok_def)
    have q3: "edit_steps (rev ?path'') = edit_steps (rev path) + 1"
      using edit_steps_snoc_rev[OF p'(1), of "(prev_x, prev_y)"] p'(2,4) st' by auto
    have q4: "hd ?path'' = hd path" using p' by simp
    have fu': "furthest pa pb (depth - 1) (prev_x - prev_y) prev_x"
      using px(2) by (simp add: prev_y_def)
    have dp': "0 \<le> depth - 1" "nat (depth - 1) < length trace" using True dp by auto
    have step: "backtrack_loop trace depth x y path
        = backtrack_loop trace (depth - 1) prev_x prev_y ?path''"
    proof (cases "move_down v depth k")
      case md: True
      with st have s: "sx = prev_x" "sy = prev_y + 1" by auto
      show ?thesis
        using True pi di wb md s unfolding k_def prev_k_def prev_y_def
        by (subst backtrack_loop.simps) (simp add: Let_def)
    next
      case md: False
      with st have s: "sx = prev_x + 1" "sy = prev_y" by auto
      show ?thesis
        using True pi di wb md s unfolding k_def prev_k_def prev_y_def
        by (subst backtrack_loop.simps) (simp add: Let_def)
    qed
    have wb1: "(sx, (sy, path')) = walk_back prev_x prev_y x y path" using wb by simp
    have wb2: "(sy, path') = (sy, path')" by simp
    have "\<exists>path3 p. backtrack_loop trace (depth - 1) prev_x prev_y ?path'' = Inr path3
       \<and> path3 \<noteq> [] \<and> last path3 = (p, p) \<and> 0 \<le> p \<and> path_ok (rev path3)
       \<and> edit_steps (rev path3) = edit_steps (rev ?path'') + (depth - 1) \<and> hd path3 = hd ?path''"
    proof (cases "move_down v depth k")
      case md: True
      with st have s: "sx = prev_x" "sy = prev_y + 1" by auto
      have cond: "\<not> prev_x < sx" using s by simp
      note ih = "1.IH"(2)[OF True pi k_def prev_k_def di prev_y_def wb1 wb2 cond tr dp',
                          unfolded s(1)]
      show ?thesis by (rule ih[OF fu' q1 q2])
    next
      case md: False
      with st have s: "sx = prev_x + 1" "sy = prev_y" by auto
      have cond: "prev_x < sx" using s by simp
      note ih = "1.IH"(1)[OF True pi k_def prev_k_def di prev_y_def wb1 wb2 cond tr dp',
                          unfolded s(2)]
      show ?thesis by (rule ih[OF fu' q1 q2])
    qed
    with step q3 q4 show ?thesis by auto
  qed
qed

lemma shortest_furthest:
  assumes "shortest pa pb d"
  shows "furthest pa pb d (int (length pa) - int (length pb)) (int (length pa))"
proof -
  let ?n = "int (length pa)" and ?m = "int (length pb)"
  from assms have r: "reach pa pb d ?n ?m"
    and mn: "\<forall>e. e < d \<longrightarrow> \<not> reach pa pb e ?n ?m" by (simp_all add: shortest_def)
  have "x' \<le> ?n" if r': "reach pa pb d x' (x' - (?n - ?m))" for x'
  proof (rule ccontr)
    assume "\<not> x' \<le> ?n"
    then have gt: "?n < x'" by simp
    have "reach pa pb (d - 2 * (x' - ?n)) ?n ?m"
      by (rule reach_eq[OF reach_clamp[OF r']]) (use gt in auto)
    with mn gt show False by auto
  qed
  with r show ?thesis unfolding furthest_def by simp
qed

lemma backtrack_ok:
  assumes "shortest pa pb d" "trace_ok pa pb trace" "length trace = nat d + 1"
  shows "\<exists>path. backtrack (int (length pa)) (int (length pb)) trace d = Inr path
       \<and> path_ok path \<and> path \<noteq> [] \<and> hd path = (0, 0)
       \<and> last path = (int (length pa), int (length pb)) \<and> edit_steps path = d"
proof -
  let ?n = "int (length pa)" and ?m = "int (length pb)"
  from assms(1) have "reach pa pb d ?n ?m" by (simp add: shortest_def)
  then have d0: "0 \<le> d" using reach_nonneg by blast
  have dl: "nat d < length trace" using assms(3) by simp
  have fu: "furthest pa pb d (?n - ?m) ?n" by (rule shortest_furthest[OF assms(1)])
  have p0: "[(?n, ?m)] \<noteq> []" "last [(?n, ?m)] = (?n, ?m)" "path_ok (rev [(?n, ?m)])" by simp_all
  from backtrack_loop_invariant[OF assms(2) d0 dl fu p0]
  obtain path' p where bl: "backtrack_loop trace d ?n ?m [(?n, ?m)] = Inr path'"
    and pp: "path' \<noteq> []" "last path' = (p, p)" "0 \<le> p" "path_ok (rev path')"
      "edit_steps (rev path') = d" "hd path' = (?n, ?m)" by auto
  obtain rest where rv: "rev path' = (p, p) # rest"
    using pp(1,2) by (cases path' rule: rev_cases) auto
  have lst: "last (rev path') = (?n, ?m)" using pp(1,6) by (simp add: last_rev)
  show ?thesis
  proof (cases "p = 0")
    case True
    then have "backtrack ?n ?m trace d = Inr (rev path')"
      using bl rv lst pp(1) by (simp add: backtrack_def Let_def)
    then show ?thesis using pp rv lst True by auto
  next
    case False
    then have p1: "0 < p" using pp(3) by simp
    have "backtrack ?n ?m trace d = Inr ((0, 0) # rev path')"
      using bl rv lst pp(1) False by (simp add: backtrack_def Let_def)
    moreover have "path_ok ((0, 0) # rev path')" using pp(4) p1 rv by (simp add: step_ok_def)
    moreover have "edit_steps ((0, 0) # rev path') = d" using pp(5) p1 rv by simp
    moreover have "last ((0, 0) # rev path') = (?n, ?m)" using lst rv by simp
    ultimately show ?thesis by simp
  qed
qed

lemma find_shortest_edit_script_ok:
  "\<exists>path d. find_shortest_edit_script pa pb = Inr path
       \<and> path_ok path \<and> path \<noteq> [] \<and> hd path = (0, 0)
       \<and> last path = (int (length pa), int (length pb)) \<and> edit_steps path = d
       \<and> shortest pa pb d"
proof -
  from search_found[of pa pb] obtain trace d where
    s: "search pa pb = Inr (Found trace d)" "shortest pa pb d"
       "length trace = nat d + 1" "trace_ok pa pb trace" by blast
  from backtrack_ok[OF s(2,4,3)] s(1,2) show ?thesis
    by (auto simp: find_shortest_edit_script_def Let_def)
qed

subsection \<open>Longest common subsequences\<close>

lemma lcs_Nil2 [simp]: "lcs xs [] = 0"
  by (cases xs) auto

lemma lcs_greatest: "subseq c a \<Longrightarrow> subseq c b \<Longrightarrow> length c \<le> lcs a b"
proof (induction a b arbitrary: c rule: lcs.induct)
  case (1 ys)
  then show ?case by simp
next
  case (2 x xs)
  then show ?case by simp
next
  case (3 x xs y ys)
  show ?case
  proof (cases c)
    case Nil
    then show ?thesis by simp
  next
    case (Cons z c')
    show ?thesis
    proof (cases "x = y")
      case True
      have "subseq c' xs" using "3.prems"(1) Cons
        by (metis subseq_Cons' subseq_Cons2_iff)
      moreover have "subseq c' ys" using "3.prems"(2) Cons
        by (metis subseq_Cons' subseq_Cons2_iff)
      ultimately have "length c' \<le> lcs xs ys" using "3.IH"(1)[OF True] by blast
      then show ?thesis using True Cons by simp
    next
      case False
      show ?thesis
      proof (cases "z = x")
        case zx: True
        then have "subseq c ys" using "3.prems"(2) Cons False by (simp add: subseq_Cons2_iff)
        with "3.IH"(3)[OF False "3.prems"(1)] show ?thesis using False by simp
      next
        case zx: False
        then have "subseq c xs" using "3.prems"(1) Cons by (simp add: subseq_Cons2_iff)
        with "3.IH"(2)[OF False _ "3.prems"(2)] show ?thesis using False by simp
      qed
    qed
  qed
qed

lemma lcs_attained: "\<exists>c. subseq c a \<and> subseq c b \<and> length c = lcs a b"
proof (induction a b rule: lcs.induct)
  case (1 ys)
  show ?case by (rule exI[of _ "[]"]) simp
next
  case (2 x xs)
  show ?case by (rule exI[of _ "[]"]) simp
next
  case (3 x xs y ys)
  show ?case
  proof (cases "x = y")
    case True
    from "3.IH"(1)[OF True] obtain c where "subseq c xs" "subseq c ys" "length c = lcs xs ys" by blast
    then show ?thesis using True by (intro exI[of _ "x # c"]) simp
  next
    case False
    show ?thesis
    proof (cases "lcs xs (y # ys) \<ge> lcs (x # xs) ys")
      case True
      from "3.IH"(2)[OF False] obtain c where "subseq c xs" "subseq c (y # ys)"
        "length c = lcs xs (y # ys)" by blast
      then show ?thesis using False True by (intro exI[of _ c]) (auto simp: max_def)
    next
      case ge: False
      from "3.IH"(3)[OF False] obtain c where "subseq c (x # xs)" "subseq c ys"
        "length c = lcs (x # xs) ys" by blast
      then show ?thesis using False ge by (intro exI[of _ c]) (auto simp: max_def)
    qed
  qed
qed

subsection \<open>The distance found and the longest common subsequence\<close>

lemma reach_common_subseq:
  "reach pa pb e x y \<Longrightarrow>
   x \<le> int (length pa) \<and> y \<le> int (length pb) \<longrightarrow>
     (\<exists>c. subseq c (take (nat x) pa) \<and> subseq c (take (nat y) pb)
        \<and> x + y \<le> e + 2 * int (length c))"
proof (induction rule: reach.induct)
  case reach_start
  show ?case by (auto intro: exI[of _ "[]"])
next
  case (reach_diag e x y)
  from reach_nonneg[OF reach_diag.hyps(1)] have nn: "0 \<le> x" "0 \<le> y" by auto
  from reach_diag obtain c where c: "subseq c (take (nat x) pa)" "subseq c (take (nat y) pb)"
    "x + y \<le> e + 2 * int (length c)" by auto
  have lt: "nat x < length pa" "nat y < length pb" using nn reach_diag.hyps(2,3) by auto
  have tx: "take (nat (x + 1)) pa = take (nat x) pa @ [pa ! nat x]"
    using nn lt by (simp add: nat_add_distrib take_Suc_conv_app_nth)
  have ty: "take (nat (y + 1)) pb = take (nat y) pb @ [pa ! nat x]"
    using nn lt reach_diag.hyps(4) by (simp add: nat_add_distrib take_Suc_conv_app_nth)
  have "subseq (c @ [pa ! nat x]) (take (nat (x + 1)) pa)"
    unfolding tx using c(1) by (intro list_emb_append_mono) auto
  moreover have "subseq (c @ [pa ! nat x]) (take (nat (y + 1)) pb)"
    unfolding ty using c(2) by (intro list_emb_append_mono) auto
  moreover have "x + 1 + (y + 1) \<le> e + 2 * int (length (c @ [pa ! nat x]))" using c(3) by simp
  ultimately show ?case by blast
next
  case (reach_right e x y)
  from reach_nonneg[OF reach_right.hyps(1)] have nn: "0 \<le> x" "0 \<le> y" by auto
  show ?case
  proof (intro impI)
    assume b: "x + 1 \<le> int (length pa) \<and> y \<le> int (length pb)"
    with reach_right.IH obtain c where c: "subseq c (take (nat x) pa)" "subseq c (take (nat y) pb)"
      "x + y \<le> e + 2 * int (length c)" by auto
    have "nat x < length pa" using nn b by auto
    then have tx: "take (nat (x + 1)) pa = take (nat x) pa @ [pa ! nat x]"
      using nn by (simp add: nat_add_distrib take_Suc_conv_app_nth)
    have "subseq c (take (nat (x + 1)) pa)" unfolding tx using c(1) by (rule list_emb_prefix)
    with c show "\<exists>c. subseq c (take (nat (x + 1)) pa) \<and> subseq c (take (nat y) pb)
        \<and> x + 1 + y \<le> e + 1 + 2 * int (length c)" by (intro exI[of _ c]) simp
  qed
next
  case (reach_down e x y)
  from reach_nonneg[OF reach_down.hyps(1)] have nn: "0 \<le> x" "0 \<le> y" by auto
  show ?case
  proof (intro impI)
    assume b: "x \<le> int (length pa) \<and> y + 1 \<le> int (length pb)"
    with reach_down.IH obtain c where c: "subseq c (take (nat x) pa)" "subseq c (take (nat y) pb)"
      "x + y \<le> e + 2 * int (length c)" by auto
    have "nat y < length pb" using nn b by auto
    then have ty: "take (nat (y + 1)) pb = take (nat y) pb @ [pb ! nat y]"
      using nn by (simp add: nat_add_distrib take_Suc_conv_app_nth)
    have "subseq c (take (nat (y + 1)) pb)" unfolding ty using c(2) by (rule list_emb_prefix)
    with c show "\<exists>c. subseq c (take (nat x) pa) \<and> subseq c (take (nat (y + 1)) pb)
        \<and> x + (y + 1) \<le> e + 1 + 2 * int (length c)" by (intro exI[of _ c]) simp
  qed
qed

lemma drop_eq_ConsD:
  assumes "drop i xs = a # as"
  shows "i < length xs \<and> xs ! i = a \<and> drop (Suc i) xs = as"
proof -
  have i: "i < length xs" using assms by (metis drop_all list.distinct(1) not_less)
  from Cons_nth_drop_Suc[OF i] assms show ?thesis using i by simp
qed

lemma reach_via_lcs:
  assumes "reach pa pb e x y" "0 \<le> x" "0 \<le> y"
    and "drop (nat x) pa = as" "drop (nat y) pb = bs"
    and "x \<le> int (length pa)" "y \<le> int (length pb)"
  shows "reach pa pb (e + int (length as) + int (length bs) - 2 * int (lcs as bs))
           (int (length pa)) (int (length pb))"
  using assms
proof (induction as bs arbitrary: e x y rule: lcs.induct)
  case (1 bs)
  then have x: "x = int (length pa)" by simp
  have "length bs = length pb - nat y" using "1.prems"(5) by (metis length_drop)
  then have l: "int (length bs) = int (length pb) - y" using "1.prems"(3,7) by simp
  show ?case
    by (rule reach_eq[OF reach_downs[OF "1.prems"(1), of "length bs"]]) (use x l in auto)
next
  case (2 a as)
  then have y: "y = int (length pb)" by simp
  have "length (a # as) = length pa - nat x" using "2.prems"(4) by (metis length_drop)
  then have l: "int (length (a # as)) = int (length pa) - x" using "2.prems"(2,6) by simp
  show ?case
    by (rule reach_eq[OF reach_rights[OF "2.prems"(1), of "length (a # as)"]]) (use y l in auto)
next
  case (3 a as b bs)
  from drop_eq_ConsD[OF "3.prems"(4)] have dx: "nat x < length pa" "pa ! nat x = a"
    "drop (Suc (nat x)) pa = as" by auto
  from drop_eq_ConsD[OF "3.prems"(5)] have dy: "nat y < length pb" "pb ! nat y = b"
    "drop (Suc (nat y)) pb = bs" by auto
  have sx: "nat (x + 1) = Suc (nat x)" "nat (y + 1) = Suc (nat y)" using "3.prems"(2,3) by auto
  have bx: "x < int (length pa)" "y < int (length pb)" using dx(1) dy(1) "3.prems"(2,3) by auto
  show ?case
  proof (cases "a = b")
    case True
    have r: "reach pa pb e (x + 1) (y + 1)"
      using reach_diag[OF "3.prems"(1) bx] dx(2) dy(2) True by simp
    have "reach pa pb (e + int (length as) + int (length bs) - 2 * int (lcs as bs))
           (int (length pa)) (int (length pb))"
      by (rule "3.IH"(1)[OF True r]) (use "3.prems" dx dy sx bx in auto)
    then show ?thesis by (rule reach_eq) (use True in auto)
  next
    case False
    show ?thesis
    proof (cases "lcs as (b # bs) \<ge> lcs (a # as) bs")
      case True
      have r: "reach pa pb (e + 1) (x + 1) y" using reach_right[OF "3.prems"(1)] .
      have "reach pa pb (e + 1 + int (length as) + int (length (b # bs)) - 2 * int (lcs as (b # bs)))
           (int (length pa)) (int (length pb))"
        by (rule "3.IH"(2)[OF False r]) (use "3.prems" dx dy sx bx in auto)
      then show ?thesis by (rule reach_eq) (use False True in \<open>auto simp: max_def\<close>)
    next
      case ge: False
      have r: "reach pa pb (e + 1) x (y + 1)" using reach_down[OF "3.prems"(1)] .
      have "reach pa pb (e + 1 + int (length (a # as)) + int (length bs) - 2 * int (lcs (a # as) bs))
           (int (length pa)) (int (length pb))"
        by (rule "3.IH"(3)[OF False r]) (use "3.prems" dx dy sx bx in auto)
      then show ?thesis by (rule reach_eq) (use False ge in \<open>auto simp: max_def\<close>)
    qed
  qed
qed

lemma shortest_lcs:
  assumes "shortest pa pb d"
  shows "d = int (length pa) + int (length pb) - 2 * int (lcs pa pb)"
proof -
  let ?n = "int (length pa)" and ?m = "int (length pb)"
  from assms have r: "reach pa pb d ?n ?m"
    and mn: "\<forall>e. e < d \<longrightarrow> \<not> reach pa pb e ?n ?m" by (simp_all add: shortest_def)
  have "reach pa pb (0 + ?n + ?m - 2 * int (lcs pa pb)) ?n ?m"
    by (rule reach_via_lcs[OF reach_start]) auto
  with mn have up: "d \<le> ?n + ?m - 2 * int (lcs pa pb)" by force
  from reach_common_subseq[OF r] obtain c where
    c: "subseq c pa" "subseq c pb" "?n + ?m \<le> d + 2 * int (length c)" by auto
  from lcs_greatest[OF c(1,2)] c(3) have "?n + ?m \<le> d + 2 * int (lcs pa pb)" by simp
  with up show ?thesis by simp
qed

lemma compute_ok:
  "\<exists>ops. compute sa sb pa pb = Inr ops
     \<and> chain sa sb (0, 0) ops (int (length pa), int (length pb))
     \<and> non_equal_units ops = int (length pa) + int (length pb) - 2 * int (lcs pa pb)"
proof -
  from find_shortest_edit_script_ok[of pa pb] obtain path d where
    p: "find_shortest_edit_script pa pb = Inr path" "path_ok path" "path \<noteq> []"
       "hd path = (0, 0)" "last path = (int (length pa), int (length pb))"
       "edit_steps path = d" "shortest pa pb d" by blast
  from build_diff_results_chain_units[OF p(2,3), of sa sb] p shortest_lcs[OF p(7)]
  show ?thesis by (simp add: compute_def)
qed

subsection \<open>Properties of compare_lines and myers_diff\<close>

lemma preprocess_sequence_plain [simp]: "preprocess_sequence False False False seq = seq"
  by (induction seq) auto

lemma preprocess_lines_no_options [simp]: "preprocess_lines no_options lines = lines"
  by (induction lines) (auto simp: no_options_def)

lemma compare_lines_no_options:
  "compare_lines no_options lines_a lines_b = myers_diff lines_a lines_b False False False"
  by (cases "myers_diff lines_a lines_b False False False")
     (auto simp: compare_lines_def Let_def, auto simp: no_options_def)

lemma fuzzy_loop_units:
  "non_equal_units (fuzzy_loop opts results i merged)
     = non_equal_units merged + non_equal_units (drop i results)"
proof (induction opts results i merged rule: fuzzy_loop.induct)
  case (1 opts results i merged)
  show ?case
  proof (cases "i < length results")
    case False
    then show ?thesis by (subst fuzzy_loop.simps) (simp add: non_equal_units_def)
  next
    case True
    show ?thesis
    proof (cases "Suc i < length results \<and> type (results ! i) = DELETE \<and> type (results ! Suc i) = INSERT
            \<and> ratio_at_least_threshold opts
                  (py_join [CHR 0x0A] (old_lines (results ! i)))
                  (py_join [CHR 0x0A] (new_lines (results ! Suc i)))")
      case m: True
      let ?r = "\<lparr>type = REPLACE, old_start = old_start (results ! i),
                  old_count = old_count (results ! i),
                  new_start = new_start (results ! Suc i),
                  new_count = new_count (results ! Suc i),
                  old_lines = old_lines (results ! i),
                  new_lines = new_lines (results ! Suc i)\<rparr>"
      have dr: "drop i results = results ! i # results ! Suc i # drop (i + 2) results"
        using m by (metis Cons_nth_drop_Suc Suc_lessD add_2_eq_Suc')
      have ih: "non_equal_units (fuzzy_loop opts results (i + 2) (merged @ [?r]))
              = non_equal_units (merged @ [?r]) + non_equal_units (drop (i + 2) results)"
        by (rule "1.IH"(1)[OF True m])
      have b: "fuzzy_loop opts results i merged = fuzzy_loop opts results (i + 2) (merged @ [?r])"
        using True m by (subst fuzzy_loop.simps) simp
      have "non_equal_units (drop i results) = op_units ?r + non_equal_units (drop (i + 2) results)"
        unfolding dr using m by (simp add: non_equal_units_def op_units_def)
      then show ?thesis using ih b by (simp add: non_equal_units_def)
    next
      case m: False
      have dr: "drop i results = results ! i # drop (i + 1) results"
        using True by (simp add: Cons_nth_drop_Suc)
      have ih: "non_equal_units (fuzzy_loop opts results (i + 1) (merged @ [results ! i]))
              = non_equal_units (merged @ [results ! i]) + non_equal_units (drop (i + 1) results)"
        by (rule "1.IH"(2)[OF True m])
      have b: "fuzzy_loop opts results i merged = fuzzy_loop opts results (i + 1) (merged @ [results ! i])"
        using True m by (subst fuzzy_loop.simps) auto
      show ?thesis using ih b unfolding dr by (simp add: non_equal_units_def)
    qed
  qed
qed

lemma compare_lines_ok:
  "\<exists>ops. compare_lines opts lines_a lines_b = Inr ops
     \<and> chain (preprocess_lines opts lines_a) (preprocess_lines opts lines_b) (0, 0) ops
         (int (length (diffed opts lines_a)), int (length (diffed opts lines_b)))
     \<and> non_equal_units ops
         = int (length (diffed opts lines_a)) + int (length (diffed opts lines_b))
           - 2 * int (lcs (diffed opts lines_a) (diffed opts lines_b))"
proof -
  let ?sa = "preprocess_lines opts lines_a" and ?sb = "preprocess_lines opts lines_b"
  let ?e = "(int (length (diffed opts lines_a)), int (length (diffed opts lines_b)))"
  from compute_ok[of ?sa ?sb "diffed opts lines_a" "diffed opts lines_b"]
  obtain ops where o: "compute ?sa ?sb (diffed opts lines_a) (diffed opts lines_b) = Inr ops"
    "chain ?sa ?sb (0, 0) ops ?e"
    "non_equal_units ops
         = int (length (diffed opts lines_a)) + int (length (diffed opts lines_b))
           - 2 * int (lcs (diffed opts lines_a) (diffed opts lines_b))" by blast
  have m: "myers_diff ?sa ?sb (ignore_case opts) (ignore_whitespace opts) (ignore_blank_lines opts)
      = Inr ops" using o(1) by (simp add: myers_diff_def diffed_def)
  have c0: "chain ?sa ?sb (0, 0) [] (0, 0)" by simp
  have fz: "chain ?sa ?sb (0, 0) (apply_fuzzy_matching opts ops) ?e"
    unfolding apply_fuzzy_matching_def using fuzzy_loop_chain[OF c0, of 0 ops ?e opts] o(2) by simp
  have fu: "non_equal_units (apply_fuzzy_matching opts ops) = non_equal_units ops"
    unfolding apply_fuzzy_matching_def
    using fuzzy_loop_units[of opts ops 0 "[]"] by (simp add: non_equal_units_def)
  show ?thesis
    using m o(2,3) fz fu by (auto simp: compare_lines_def Let_def detect_moving_blocks_def)
qed

text \<open>C1: for all line lists A and B compared without ignore options, the number of
  non-Equal line-units of the result of \<open>MyersDiff.compute\<close> is N + M - 2 L, with N and M
  the lengths of A and B and L the length of a longest common subsequence of A and B.\<close>

theorem myers_minimality:
  "\<exists>ops. myers_diff A B False False False = Inr ops
     \<and> non_equal_units ops = int (length A) + int (length B) - 2 * int (lcs A B)"
  using compute_ok[of A B A B] by (auto simp: myers_diff_def)

text \<open>C2: for all line lists A and B compared without ignore options, the \<open>old_lines\<close>
  of the returned operations, concatenated in order, are exactly A, and the \<open>new_lines\<close>
  are exactly B.\<close>

theorem myers_coverage:
  "\<exists>ops. myers_diff A B False False False = Inr ops \<and> compare_lines no_options A B = Inr ops
     \<and> concat (map old_lines ops) = A \<and> concat (map new_lines ops) = B"
proof -
  from compute_ok[of A B A B] obtain ops where
    o: "compute A B A B = Inr ops" "chain A B (0, 0) ops (int (length A), int (length B))" by blast
  from chain_lines[OF o(2)] have "concat (map old_lines ops) = A" "concat (map new_lines ops) = B"
    by (simp_all add: py_slice_all)
  with o(1) show ?thesis by (simp add: compare_lines_no_options myers_diff_def)
qed

text \<open>C7: for all sequences of lengths N and M the search returns from inside its loop,
  at a distance d with 0 \<le> d \<le> N + M at which the point (N, M) is reached with d edits;
  the fallback after the loop is never the result, and the backtracking of the trace
  returns a path from (0, 0) to (N, M) with d steps that are not diagonal.\<close>

theorem search_reaches_end:
  "\<exists>trace d path. search pa pb = Inr (Found trace d) \<and> 0 \<le> d
     \<and> d \<le> int (length pa) + int (length pb)
     \<and> reach pa pb d (int (length pa)) (int (length pb))
     \<and> backtrack (int (length pa)) (int (length pb)) trace d = Inr path
     \<and> find_shortest_edit_script pa pb = Inr path
     \<and> path \<noteq> [] \<and> hd path = (0, 0) \<and> last path = (int (length pa), int (length pb))
     \<and> path_ok path \<and> edit_steps path = d"
proof -
  from search_found[of pa pb] obtain trace d where
    s: "search pa pb = Inr (Found trace d)" "d \<le> int (length pa) + int (length pb)"
      "shortest pa pb d" "length trace = nat d + 1" "trace_ok pa pb trace" by blast
  from s(3) have r: "reach pa pb d (int (length pa)) (int (length pb))"
    by (simp add: shortest_def)
  then have d0: "0 \<le> d" using reach_nonneg by blast
  from backtrack_ok[OF s(3,5,4)] obtain path where
    p: "backtrack (int (length pa)) (int (length pb)) trace d = Inr path"
       "path_ok path" "path \<noteq> []" "hd path = (0, 0)"
       "last path = (int (length pa), int (length pb))" "edit_steps path = d" by blast
  have "find_shortest_edit_script pa pb = Inr path"
    using s(1) p(1) by (simp add: find_shortest_edit_script_def Let_def)
  with s(1,2) r d0 p show ?thesis by blast
qed

text \<open>C8: for all line lists and all options, every operation that \<open>compare_lines\<close>
  returns ends within the sequences that were compared, and every operation starts, on
  both sides, where the one before it ends.\<close>

theorem compare_lines_contiguous:
  "\<exists>ops. compare_lines opts lines_a lines_b = Inr ops
     \<and> (\<forall>r \<in> set ops.
           old_start r + old_count r \<le> int (length (diffed opts lines_a))
         \<and> new_start r + new_count r \<le> int (length (diffed opts lines_b)))
     \<and> (\<forall>i. Suc i < length ops \<longrightarrow>
           old_start (ops ! i) + old_count (ops ! i) = old_start (ops ! Suc i)
         \<and> new_start (ops ! i) + new_count (ops ! i) = new_start (ops ! Suc i))"
proof -
  from compare_lines_ok[of opts lines_a lines_b] obtain ops where
    o: "compare_lines opts lines_a lines_b = Inr ops"
       "chain (preprocess_lines opts lines_a) (preprocess_lines opts lines_b) (0, 0) ops
         (int (length (diffed opts lines_a)), int (length (diffed opts lines_b)))" by blast
  show ?thesis using o(1) chain_bounds[OF o(2)] chain_contiguous[OF o(2)] by auto
qed

lemma follow_diagonal_same: "follow_diagonal X X 0 0 = Inr (int (length X))"
proof -
  from follow_diagonal_props[of 0 0 X X] obtain x where
    f: "follow_diagonal X X 0 0 = Inr x" and m: "matches X X 0 0 x"
    and s: "\<not> (x < int (length X) \<and> x - 0 < int (length X) \<and> X ! nat x = X ! nat (x - 0))"
    by auto
  from s have "int (length X) \<le> x" by auto
  moreover have "x \<le> int (length X)"
  proof (rule ccontr)
    assume "\<not> x \<le> int (length X)"
    then have "0 \<le> int (length X) \<and> int (length X) < x" by simp
    with m have "int (length X) < int (length X)" unfolding matches_def by blast
    then show False by simp
  qed
  ultimately show ?thesis using f by simp
qed

lemma search_same: "search X X = Inr (Found [[1 \<mapsto> 0]] 0)"
proof -
  have k: "k_loop X X 0 0 [1 \<mapsto> 0] = Inr Reached"
    by (subst k_loop.simps) (simp add: move_down_def dict_get_def follow_diagonal_same Let_def)
  show ?thesis
    unfolding search_def by (subst d_loop.simps) (simp add: k Let_def)
qed

lemma find_shortest_edit_script_same:
  "find_shortest_edit_script X X
     = Inr (if X = [] then [(0, 0)] else [(0, 0), (int (length X), int (length X))])"
proof -
  have "backtrack_loop [[1 \<mapsto> 0]] 0 (int (length X)) (int (length X))
          [(int (length X), int (length X))] = Inr [(int (length X), int (length X))]"
    by (subst backtrack_loop.simps) simp
  then show ?thesis
    by (simp add: find_shortest_edit_script_def search_same backtrack_def Let_def)
qed

text \<open>C3: \<open>compare_lines(X, X)\<close> without ignore options returns the empty list when X is
  empty and otherwise the single operation Equal with \<open>old_count = new_count = len(X)\<close>
  that spans all of X; so the result holds no Insert, Delete or Replace.\<close>

theorem compare_lines_identity:
  "compare_lines no_options X X
     = Inr (if X = [] then []
            else [\<lparr>type = EQUAL, old_start = 0, old_count = int (length X),
                    new_start = 0, new_count = int (length X),
                    old_lines = X, new_lines = X\<rparr>])"
proof (cases "X = []")
  case True
  have "build_loop X X [(0, 0)] 0 [] = []" by (subst build_loop.simps) simp
  moreover have "merge_loop ([] :: 'a DiffResult list) 0 [] = []" by (subst merge_loop.simps) simp
  ultimately show ?thesis
    using True
    by (simp add: compare_lines_no_options myers_diff_def compute_def
          find_shortest_edit_script_same build_diff_results_def merge_replace_operations_def)
next
  case False
  let ?n = "int (length X)"
  let ?path = "[(0, 0), (?n, ?n)]"
  let ?r = "\<lparr>type = EQUAL, old_start = 0, old_count = ?n, new_start = 0, new_count = ?n,
              old_lines = X, new_lines = X\<rparr>"
  have n: "0 < ?n" using False by simp
  have e: "equal_block_end ?path (Suc 0) = Suc 0" by (subst equal_block_end.simps) simp
  have b1: "build_loop X X ?path (Suc 0) [?r] = [?r]" by (subst build_loop.simps) simp
  have b0: "build_loop X X ?path 0 [] = [?r]"
    using n by (subst build_loop.simps) (simp add: Let_def e b1 py_slice_all)
  have m1: "merge_loop [?r] (Suc 0) [?r] = [?r]" by (subst merge_loop.simps) simp
  have m0: "merge_loop [?r] 0 [] = [?r]" by (subst merge_loop.simps) (simp add: m1)
  show ?thesis
    using False
    by (simp add: compare_lines_no_options myers_diff_def compute_def
          find_shortest_edit_script_same build_diff_results_def merge_replace_operations_def b0 m0)
qed

lemma preprocess_sequence_length:
  "\<not> ib \<or> list_all (\<lambda>l. py_strip l \<noteq> []) seq \<Longrightarrow>
   length (preprocess_sequence ic iw ib seq) = length seq"
  by (induction seq) (auto simp: Let_def)

lemma drops_nothing_length:
  "drops_nothing opts lines \<Longrightarrow> length (diffed opts lines) = length (preprocess_lines opts lines)"
  unfolding drops_nothing_def diffed_def by (rule preprocess_sequence_length)

text \<open>C6, as the code behaves: for all line lists and all options \<open>compare_lines\<close>
  compares the sequences after both preprocessing passes, so that the number of
  non-Equal line-units is that of a shortest edit script between them, and the line
  fields of every operation are slices of what \<open>DiffEngine._preprocess_lines\<close> returns
  (filtered and trimmed, not normalised in case or whitespace), taken at the
  operation's own start and count. On a side where the second pass drops no line, in
  particular whenever \<open>ignore_blank_lines\<close> is unset, these slices concatenate to all of
  \<open>_preprocess_lines\<close> of that side, so that a line the engine filtered out is not in
  the output.\<close>

theorem compare_lines_reports_engine_text:
  "\<exists>ops. compare_lines opts lines_a lines_b = Inr ops
     \<and> (\<forall>r \<in> set ops.
           old_lines r = py_slice (preprocess_lines opts lines_a)
                           (old_start r) (old_start r + old_count r)
         \<and> new_lines r = py_slice (preprocess_lines opts lines_b)
                           (new_start r) (new_start r + new_count r))
     \<and> non_equal_units ops
         = int (length (diffed opts lines_a)) + int (length (diffed opts lines_b))
           - 2 * int (lcs (diffed opts lines_a) (diffed opts lines_b))
     \<and> (drops_nothing opts lines_a \<longrightarrow>
           concat (map old_lines ops) = preprocess_lines opts lines_a)
     \<and> (drops_nothing opts lines_b \<longrightarrow>
           concat (map new_lines ops) = preprocess_lines opts lines_b)"
proof -
  from compare_lines_ok[of opts lines_a lines_b] obtain ops where
    o: "compare_lines opts lines_a lines_b = Inr ops"
       "chain (preprocess_lines opts lines_a) (preprocess_lines opts lines_b) (0, 0) ops
         (int (length (diffed opts lines_a)), int (length (diffed opts lines_b)))"
       "non_equal_units ops
         = int (length (diffed opts lines_a)) + int (length (diffed opts lines_b))
           - 2 * int (lcs (diffed opts lines_a) (diffed opts lines_b))" by blast
  have sl: "\<forall>r \<in> set ops.
           old_lines r = py_slice (preprocess_lines opts lines_a)
                           (old_start r) (old_start r + old_count r)
         \<and> new_lines r = py_slice (preprocess_lines opts lines_b)
                           (new_start r) (new_start r + new_count r)"
    using chain_slices[OF o(2)] by blast
  from chain_lines[OF o(2)]
  have cl: "concat (map old_lines ops)
        = py_slice (preprocess_lines opts lines_a) 0 (int (length (diffed opts lines_a)))"
    "concat (map new_lines ops)
        = py_slice (preprocess_lines opts lines_b) 0 (int (length (diffed opts lines_b)))"
    by simp_all
  have ca: "concat (map old_lines ops) = preprocess_lines opts lines_a"
    if "drops_nothing opts lines_a"
    using cl(1) drops_nothing_length[OF that] by (simp add: py_slice_all)
  have cb: "concat (map new_lines ops) = preprocess_lines opts lines_b"
    if "drops_nothing opts lines_b"
    using cl(2) drops_nothing_length[OF that] by (simp add: py_slice_all)
  from o(1,3) sl ca cb show ?thesis by blast
qed

theorem compare_lines_reports_engine_text_witness:
  "drops_nothing (no_options\<lparr>ignore_case := True\<rparr>) [''Hello'', ''x'']
   \<and> drops_nothing (no_options\<lparr>ignore_case := True\<rparr>) [''hello'']
   \<and> (\<exists>ops. compare_lines (no_options\<lparr>ignore_case := True\<rparr>) [''Hello'', ''x''] [''hello''] = Inr ops
     \<and> concat (map old_lines ops) = [''Hello'', ''x'']
     \<and> concat (map new_lines ops) = [''hello'']
     \<and> non_equal_units ops = 1)"
proof -
  have a: "drops_nothing (no_options\<lparr>ignore_case := True\<rparr>) [''Hello'', ''x'']" by code_simp
  have b: "drops_nothing (no_options\<lparr>ignore_case := True\<rparr>) [''hello'']" by code_simp
  have p: "preprocess_lines (no_options\<lparr>ignore_case := True\<rparr>) [''Hello'', ''x''] = [''Hello'', ''x'']"
    "preprocess_lines (no_options\<lparr>ignore_case := True\<rparr>) [''hello''] = [''hello'']"
    by code_simp+
  have l: "int (length (diffed (no_options\<lparr>ignore_case := True\<rparr>) [''Hello'', ''x'']))
      + int (length (diffed (no_options\<lparr>ignore_case := True\<rparr>) [''hello'']))
      - 2 * int (lcs (diffed (no_options\<lparr>ignore_case := True\<rparr>) [''Hello'', ''x''])
                     (diffed (no_options\<lparr>ignore_case := True\<rparr>) [''hello''])) = 1"
    by code_simp
  from compare_lines_reports_engine_text
         [of "no_options\<lparr>ignore_case := True\<rparr>" "[''Hello'', ''x'']" "[''hello'']"] a b
  show ?thesis unfolding p l by blast
qed

text \<open>C6, as stated, fails: with \<open>ignore_case\<close> set, the sequence compared for
  ["Hello"] is ["hello"], and the \<open>old_lines\<close> returned are ["Hello"], not the
  case-normalised text.\<close>

theorem compare_lines_keeps_case_counterexample:
  "(case compare_lines (no_options\<lparr>ignore_case := True\<rparr>) [''Hello''] [''hello''] of
      Inl e \<Rightarrow> False
    | Inr ops \<Rightarrow>
        concat (map old_lines ops) = [''Hello'']
      \<and> diffed (no_options\<lparr>ignore_case := True\<rparr>) [''Hello''] = [''hello'']
      \<and> concat (map old_lines ops) \<noteq> diffed (no_options\<lparr>ignore_case := True\<rparr>) [''Hello''])"
  by code_simp

theorem compare_lines_contiguous_witness:
  "compare_lines (no_options\<lparr>ignore_case := True, fuzzy_matching := True,
        ratio_at_least_threshold := (\<lambda>old new. True)\<rparr>) [''A'', ''b''] [''a'', ''c''] = Inr
     [\<lparr>type = EQUAL, old_start = 0, old_count = 1, new_start = 0, new_count = 1,
        old_lines = [''A''], new_lines = [''a'']\<rparr>,
      \<lparr>type = REPLACE, old_start = 1, old_count = 1, new_start = 1, new_count = 1,
        old_lines = [''b''], new_lines = [''c'']\<rparr>]
   \<and> (\<exists>ops. compare_lines (no_options\<lparr>ignore_case := True, fuzzy_matching := True,
        ratio_at_least_threshold := (\<lambda>old new. True)\<rparr>) [''A'', ''b''] [''a'', ''c''] = Inr ops
     \<and> (\<forall>r \<in> set ops. old_start r + old_count r \<le> 2 \<and> new_start r + new_count r \<le> 2)
     \<and> (\<forall>i. Suc i < length ops \<longrightarrow>
           old_start (ops ! i) + old_count (ops ! i) = old_start (ops ! Suc i)
         \<and> new_start (ops ! i) + new_count (ops ! i) = new_start (ops ! Suc i)))"
proof -
  let ?o = "no_options\<lparr>ignore_case := True, fuzzy_matching := True,
        ratio_at_least_threshold := (\<lambda>old new. True)\<rparr>"
  have c: "compare_lines ?o [''A'', ''b''] [''a'', ''c''] = Inr
     [\<lparr>type = EQUAL, old_start = 0, old_count = 1, new_start = 0, new_count = 1,
        old_lines = [''A''], new_lines = [''a'']\<rparr>,
      \<lparr>type = REPLACE, old_start = 1, old_count = 1, new_start = 1, new_count = 1,
        old_lines = [''b''], new_lines = [''c'']\<rparr>]" by code_simp
  have l: "int (length (diffed ?o [''A'', ''b''])) = 2" "int (length (diffed ?o [''a'', ''c''])) = 2"
    by code_simp+
  from compare_lines_contiguous[of ?o "[''A'', ''b'']" "[''a'', ''c'']"] c show ?thesis
    unfolding l by blast
qed

end
